theory Spec2Isabelle
  imports Main "HOL-Library.List_Lexorder"
begin

section \<open>Shard keys and their BSON order\<close>

text \<open>
  A shard-key value is a number or one of the two sentinels that bound the key space.
  BSON compares the canonical type first (MinKey below every number, MaxKey above) and
  the value second.
\<close>

datatype bval = MinKey | Num int | MaxKey

fun canon :: "bval \<Rightarrow> nat" where
  "canon MinKey = 0"
| "canon (Num _) = 1"
| "canon MaxKey = 2"

fun bval_le :: "bval \<Rightarrow> bval \<Rightarrow> bool" where
  "bval_le (Num a) (Num b) = (a \<le> b)"
| "bval_le x y = (canon x \<le> canon y)"

instantiation bval :: linorder
begin

definition less_eq_bval :: "bval \<Rightarrow> bval \<Rightarrow> bool" where
  "less_eq_bval x y = bval_le x y"

definition less_bval :: "bval \<Rightarrow> bval \<Rightarrow> bool" where
  "less_bval x y = (bval_le x y \<and> \<not> bval_le y x)"

instance
proof
  fix x y z :: bval
  show "(x < y) = (x \<le> y \<and> \<not> y \<le> x)"
    by (simp add: less_bval_def less_eq_bval_def)
  show "x \<le> x"
    by (cases x) (simp_all add: less_eq_bval_def)
  show "x \<le> y \<Longrightarrow> y \<le> z \<Longrightarrow> x \<le> z"
    by (cases x; cases y; cases z) (simp_all add: less_eq_bval_def)
  show "x \<le> y \<Longrightarrow> y \<le> x \<Longrightarrow> x = y"
    by (cases x; cases y) (simp_all add: less_eq_bval_def)
  show "x \<le> y \<or> y \<le> x"
    by (cases x; cases y) (auto simp add: less_eq_bval_def)
qed

end

text \<open>
  A key document lists the values of the shard-key fields in order; \<open>[]\<close> is the empty
  document \<open>{}\<close>, which sorts below every other document. Documents are compared field
  by field, a proper prefix sorting first: the lexicographic order on lists.
\<close>

type_synonym doc = "bval list"

text \<open>The shell's \<open>bsonWoCompare\<close>: negative, zero or positive.\<close>

definition bsonWoCompare :: "doc \<Rightarrow> doc \<Rightarrow> int" where
  "bsonWoCompare a b = (if a < b then - 1 else if a = b then 0 else 1)"

section \<open>Data model\<close>

text \<open>
  A chunk document of \<open>config.chunks\<close>. The scan adds \<open>orphanedOn\<close> and \<open>orphanCount\<close>
  to the object, the removal adds \<open>removed\<close> and \<open>numRemoved\<close>; a field that is
  \<open>undefined\<close> is \<open>None\<close> (\<open>removed\<close> is only ever tested for truth, so \<open>undefined\<close> is
  \<open>False\<close>).
\<close>

record chunk =
  cid :: string
  cns :: string
  cmin :: doc
  cmax :: doc
  cshard :: string
  orphanedOn :: "string option"
  orphanCount :: "nat option"
  removed :: bool
  numRemoved :: "nat option"

text \<open>A stored document: its \<open>_id\<close> and the projection on the shard key.\<close>

record document =
  did :: nat
  dkey :: doc

datatype message =
    Searching string
  | BsonWoCompareUndefined
  | SkippingChunk doc
  | OrphansFound nat nat string
  | NoOrphansFound string
  | NothingToRemove
  | NoneExamined
  | NoneLeft
  | BadOrphanedChunk
  | AlreadyRemoved string "string option"
  | Removing string "nat option" "string option"
  | ThereWasAnError string
  | SuccessfullyRemoved nat string

text \<open>What the script does to the outside, in the order it does it.\<close>

datatype event =
    Print message
  | Connect string
  | CountQuery string string
  | RangeCount string string doc doc
  | RangeIds string string doc doc
  | GetBalancerState bool
  | IsBalancerRunning bool
  | DeleteIds string string "nat list"
  | GetLastError "string option"
  | Sleep nat

datatype error =
    NotAShardedCluster
  | BalancerMustBeStopped
  | BalancerStillRunning
  | ChunkOrderScrewed
  | BalancerUnexpectedlyEnabled
  | TypeError

text \<open>
  The cluster and the shell's globals. \<open>balancerState\<close>, \<open>balancerRunning\<close> and
  \<open>lastErrors\<close> hold the answers the cluster will give to the successive calls of
  \<open>sh.getBalancerState()\<close>, \<open>sh.isBalancerRunning()\<close> and \<open>getLastError()\<close>; past the
  end of the list the balancer is off and the delete succeeded. \<open>colls shard ns\<close> is the
  content of collection \<open>ns\<close> on a shard, in index order.
\<close>

record world =
  isdbgrid :: bool
  balancerState :: "bool list"
  balancerRunning :: "bool list"
  lastErrors :: "string option list"
  config_shards :: "string list"
  config_chunks :: "chunk list"
  colls :: "string \<Rightarrow> string \<Rightarrow> document list"
  active :: "string list"
  bsonWoCompare_defined :: bool
  balancerParanoia :: bool
  trace :: "event list"

text \<open>
  The object \<open>Orphans.find\<close> returns. \<open>badChunks\<close> is an array of references: the
  chunk objects live in \<open>heap\<close>, and an entry that is \<open>null\<close> or \<open>undefined\<close> is an
  address the heap does not map. \<open>namespace\<close> and \<open>connections\<close> are the variables of
  \<open>find\<close> that the methods close over; \<open>connections\<close> lists the keys of the object in
  insertion order.
\<close>

record result =
  namespace :: string
  connections :: "string list"
  heap :: "nat \<Rightarrow> chunk option"
  badChunks :: "nat list"
  maxRange :: doc
  lastMin :: doc
  count :: nat
  shardCounts :: "string \<Rightarrow> nat option"
  iter :: int

section \<open>The cursor\<close>

definition hasNext :: "result \<Rightarrow> bool" where
  "hasNext r = (if int (length (badChunks r)) > iter r + 1 then True else False)"

text \<open>\<open>badChunks[_iter]\<close>: reading an array outside its indices gives \<open>undefined\<close>.\<close>

definition current :: "result \<Rightarrow> nat option" where
  "current r =
     (if 0 \<le> iter r \<and> iter r < int (length (badChunks r))
      then Some (badChunks r ! nat (iter r)) else None)"

definition next_chunk :: "result \<Rightarrow> nat option \<times> result" where
  "next_chunk r = (let r' = r\<lparr>iter := iter r + 1\<rparr> in (current r', r'))"

definition rewind :: "result \<Rightarrow> result" where
  "rewind r = r\<lparr>iter := - 1\<rparr>"

text \<open>The loop of \<open>listAll\<close>: \<open>while (this.hasNext()) print(tojson(this.next()))\<close>.\<close>

function iterate :: "result \<Rightarrow> nat option list \<Rightarrow> nat option list \<times> result" where
  "iterate r acc =
     (if hasNext r then (case next_chunk r of (c, r') \<Rightarrow> iterate r' (acc @ [c]))
      else (acc, r))"
  by pat_completeness auto
termination
  by (relation "measure (\<lambda>(r, acc). nat (int (length (badChunks r)) - (iter r + 1)))")
     (auto simp add: hasNext_def next_chunk_def Let_def split: if_splits)

declare iterate.simps [simp del]

definition listAll :: "result \<Rightarrow> nat option list \<times> result" where
  "listAll r = (case iterate (rewind r) [] of (printed, r') \<Rightarrow> (printed, rewind r'))"

section \<open>The shell and the cluster\<close>

definition print :: "message \<Rightarrow> world \<Rightarrow> world" where
  "print m w = w\<lparr>trace := trace w @ [Print m]\<rparr>"

definition next_answer :: "bool list \<Rightarrow> bool" where
  "next_answer bs = (case bs of [] \<Rightarrow> False | x # _ \<Rightarrow> x)"

definition sh_getBalancerState :: "world \<Rightarrow> bool \<times> world" where
  "sh_getBalancerState w =
     (let b = next_answer (balancerState w)
      in (b, w\<lparr>balancerState := tl (balancerState w), trace := trace w @ [GetBalancerState b]\<rparr>))"

definition sh_isBalancerRunning :: "world \<Rightarrow> bool \<times> world" where
  "sh_isBalancerRunning w =
     (let b = next_answer (balancerRunning w)
      in (b, w\<lparr>balancerRunning := tl (balancerRunning w),
               trace := trace w @ [IsBalancerRunning b]\<rparr>))"

text \<open>
  \<open>Shard.connections()\<close>: one connection per shard of \<open>config.shards\<close>, the shards
  outside a non-empty \<open>Shard.active\<close> skipped. The \<open>_id\<close>s of a collection are unique, so
  the keys of the object are the list; authentication is left out.
\<close>

definition Shard_connections :: "world \<Rightarrow> string list \<times> world" where
  "Shard_connections w =
     (let conns = filter (\<lambda>s. \<not> (active w \<noteq> [] \<and> s \<notin> set (active w))) (config_shards w)
      in (conns, w\<lparr>trace := trace w @ map Connect conns\<rparr>))"

text \<open>
  \<open>find().min(lo).max(hi)\<close>: the documents whose key lies in \<open>[lo, hi)\<close>, in index
  order.
\<close>

definition range_docs :: "doc \<Rightarrow> doc \<Rightarrow> document list \<Rightarrow> document list" where
  "range_docs lo hi ds = filter (\<lambda>d. lo \<le> dkey d \<and> dkey d < hi) ds"

text \<open>JavaScript's truth of what \<open>getLastError()\<close> returns: \<open>null\<close> and \<open>""\<close> are false.\<close>

definition truthy :: "string option \<Rightarrow> bool" where
  "truthy e = (case e of None \<Rightarrow> False | Some s \<Rightarrow> s \<noteq> [])"

text \<open>
  \<open>naCollection.remove({_id: {$in: ids}})\<close>. The delete takes effect unless the cluster
  is about to report an error for it.
\<close>

definition coll_remove :: "string \<Rightarrow> string \<Rightarrow> nat list \<Rightarrow> world \<Rightarrow> world" where
  "coll_remove shard ns ids w =
     (let failed = (case lastErrors w of [] \<Rightarrow> False | e # _ \<Rightarrow> truthy e);
          kept = (if failed then colls w shard ns
                  else filter (\<lambda>d. did d \<notin> set ids) (colls w shard ns))
      in w\<lparr>colls := (colls w)(shard := (colls w shard)(ns := kept)),
            trace := trace w @ [DeleteIds shard ns ids]\<rparr>)"

definition getLastError :: "world \<Rightarrow> string option \<times> world" where
  "getLastError w =
     (let e = (case lastErrors w of [] \<Rightarrow> None | x # _ \<Rightarrow> x)
      in (e, w\<lparr>lastErrors := tl (lastErrors w), trace := trace w @ [GetLastError e]\<rparr>))"

section \<open>Orphans.find\<close>

definition new_result :: "string \<Rightarrow> string list \<Rightarrow> result" where
  "new_result ns conns =
     \<lparr>namespace = ns, connections = conns, heap = (\<lambda>_. None), badChunks = [],
      maxRange = [], lastMin = [], count = 0, shardCounts = (\<lambda>_. None), iter = - 1\<rparr>"

text \<open>
  The check at the head of the callback. In the else branch the message is printed and
  the order asserted; the callback then goes on to the shard loop.
\<close>

definition check_seen :: "bool \<Rightarrow> chunk \<Rightarrow> result \<Rightarrow> world \<Rightarrow> (error + result) \<times> world" where
  "check_seen precise ch r w =
     (if precise then
        (if bsonWoCompare (maxRange r) (cmax ch) < 0
         then (Inr (r\<lparr>maxRange := cmax ch, lastMin := cmin ch\<rparr>), w)
         else (let w1 = print (SkippingChunk (cmax ch)) w
               in if bsonWoCompare (lastMin r) (cmin ch) \<le> 0 then (Inr r, w1)
                  else (Inl ChunkOrderScrewed, w1)))
      else (Inr r, w))"

definition bump :: "(string \<Rightarrow> nat option) \<Rightarrow> string \<Rightarrow> nat \<Rightarrow> (string \<Rightarrow> nat option)" where
  "bump m shard n =
     (case m shard of None \<Rightarrow> m(shard \<mapsto> n)
      | Some k \<Rightarrow> if k = 0 then m(shard \<mapsto> n) else m(shard \<mapsto> k + n))"

text \<open>
  The loop over \<open>connections\<close> for the chunk object at address \<open>a\<close>. \<open>ch\<close> is the
  chunk as the cursor delivered it; the two assignments overwrite \<open>orphanedOn\<close> and
  \<open>orphanCount\<close> of the one object at \<open>a\<close>, and \<open>push\<close> appends another reference
  to it.
\<close>

fun query_shards :: "nat \<Rightarrow> chunk \<Rightarrow> string list \<Rightarrow> result \<Rightarrow> world \<Rightarrow> result \<times> world" where
  "query_shards a ch [] r w = (r, w)"
| "query_shards a ch (shard # rest) r w =
     (if shard \<noteq> cshard ch then
        (let n = length (range_docs (cmin ch) (cmax ch) (colls w shard (namespace r)));
             w1 = w\<lparr>trace := trace w @ [RangeCount shard (namespace r) (cmin ch) (cmax ch)]\<rparr>
         in if n > 0 then
              query_shards a ch rest
                (r\<lparr>count := count r + n,
                   shardCounts := bump (shardCounts r) shard n,
                   heap := (heap r)(a \<mapsto> ch\<lparr>orphanedOn := Some shard, orphanCount := Some n\<rparr>),
                   badChunks := badChunks r @ [a]\<rparr>) w1
            else query_shards a ch rest r w1)
      else query_shards a ch rest r w)"

text \<open>The \<open>forEach\<close> over the sorted chunks; each chunk is a fresh object.\<close>

fun find_chunks :: "bool \<Rightarrow> nat \<Rightarrow> chunk list \<Rightarrow> result \<Rightarrow> world \<Rightarrow> (error + result) \<times> world" where
  "find_chunks precise a [] r w = (Inr r, w)"
| "find_chunks precise a (ch # chs) r w =
     (case check_seen precise ch (r\<lparr>heap := (heap r)(a \<mapsto> ch)\<rparr>) w of
        (Inl e, w1) \<Rightarrow> (Inl e, w1)
      | (Inr r1, w1) \<Rightarrow>
          (case query_shards a ch (connections r1) r1 w1 of
             (r2, w2) \<Rightarrow> find_chunks precise (Suc a) chs r2 w2))"

text \<open>\<open>config.chunks.find({ns: namespace}).sort({min: 1})\<close>.\<close>

definition chunks_of :: "string \<Rightarrow> world \<Rightarrow> chunk list" where
  "chunks_of ns w = sort_key cmin (filter (\<lambda>c. cns c = ns) (config_chunks w))"

definition find_ns :: "string \<Rightarrow> world \<Rightarrow> (error + result) \<times> world" where
  "find_ns ns w =
     (if \<not> isdbgrid w then (Inl NotAShardedCluster, w)
      else case sh_getBalancerState w of (st, w1) \<Rightarrow>
        if st then (Inl BalancerMustBeStopped, w1)
        else case sh_isBalancerRunning w1 of (run, w2) \<Rightarrow>
          if run then (Inl BalancerStillRunning, w2)
          else
            (let w3 = print (Searching ns) w2;
                 precise = bsonWoCompare_defined w3
             in case Shard_connections w3 of (shardConns, w4) \<Rightarrow>
               (let w5 = (if precise then w4 else print BsonWoCompareUndefined w4);
                    conns = filter (\<lambda>s. length (colls w5 s ns) > 0) shardConns;
                    w6 = w5\<lparr>trace := trace w5 @ map (\<lambda>s. CountQuery s ns) shardConns\<rparr>
                in case find_chunks precise 0 (chunks_of ns w6) (new_result ns conns) w6 of
                     (Inl e, w7) \<Rightarrow> (Inl e, w7)
                   | (Inr r, w7) \<Rightarrow>
                       (Inr r,
                        print (if count r > 0
                               then OrphansFound (count r) (length (badChunks r)) ns
                               else NoOrphansFound ns) w7))))"

section \<open>remove and removeAll\<close>

text \<open>The asserted condition \<open>!sh.getBalancerState() && !sh.isBalancerRunning()\<close>.\<close>

definition balancer_off :: "world \<Rightarrow> bool \<times> world" where
  "balancer_off w =
     (case sh_getBalancerState w of (st, w1) \<Rightarrow>
        if st then (False, w1)
        else case sh_isBalancerRunning w1 of (run, w2) \<Rightarrow> (\<not> run, w2))"

text \<open>
  The \<open>while (toRemove.hasNext())\<close> loop over the cursor, with \<open>idsToRemove\<close> and
  \<open>removedCount\<close>. It ends with the count and the error that set \<open>errorFlag\<close>, if any,
  or with the failed assertion.
\<close>

fun remove_loop ::
  "string \<Rightarrow> string \<Rightarrow> document list \<Rightarrow> nat list \<Rightarrow> nat \<Rightarrow> world
     \<Rightarrow> (error + nat \<times> string option) \<times> world" where
  "remove_loop shard ns [] ids n w = (Inr (n, None), w)"
| "remove_loop shard ns (d # ds) ids n w =
     (let ids' = ids @ [did d] in
      if length ids' \<ge> 100 \<or> (ds = [] \<and> length ids' > 0) then
        (case (if balancerParanoia w then balancer_off w else (True, w)) of
           (ok, w1) \<Rightarrow>
             if \<not> ok then (Inl BalancerUnexpectedlyEnabled, w1)
             else (case getLastError (coll_remove shard ns ids' w1) of
                     (err, w2) \<Rightarrow>
                       if truthy err then (Inr (n, err), w2)
                       else remove_loop shard ns ds [] (n + length ids') w2))
      else remove_loop shard ns ds ids' n w)"

text \<open>\<open>connections[bchunk.orphanedOn]\<close>; \<open>undefined\<close> when the key is not there.\<close>

definition connection_of :: "result \<Rightarrow> string option \<Rightarrow> string option" where
  "connection_of r s =
     (case s of None \<Rightarrow> None
      | Some shard \<Rightarrow> if shard \<in> set (connections r) then Some shard else None)"

definition remove_chunk :: "result \<Rightarrow> world \<Rightarrow> (error + nat) \<times> result \<times> world" where
  "remove_chunk r w =
     (if count r = 0 \<or> length (badChunks r) = 0 then (Inr 0, r, print NothingToRemove w)
      else if iter r < 0 then (Inr 0, r, print NoneExamined w)
      else if iter r \<ge> int (length (badChunks r)) then (Inr 0, r, print NoneLeft w)
      else
        (let a = badChunks r ! nat (iter r) in
         case heap r a of
           None \<Rightarrow> (Inr 0, r, print BadOrphanedChunk w)
         | Some bchunk \<Rightarrow>
             if removed bchunk
             then (Inr 0, r, print (AlreadyRemoved (cid bchunk) (orphanedOn bchunk)) w)
             else
               (let w1 = print (Removing (cid bchunk) (orphanCount bchunk) (orphanedOn bchunk)) w
                in case connection_of r (orphanedOn bchunk) of
                     None \<Rightarrow> (Inl TypeError, r, w1)
                   | Some shard \<Rightarrow>
                       (let toRemove = range_docs (cmin bchunk) (cmax bchunk)
                                         (colls w1 shard (namespace r));
                            w2 = w1\<lparr>trace := trace w1 @
                                   [RangeIds shard (namespace r) (cmin bchunk) (cmax bchunk)]\<rparr>
                        in case remove_loop shard (namespace r) toRemove [] 0 w2 of
                             (Inl e, w3) \<Rightarrow> (Inl e, r, w3)
                           | (Inr (removedCount, Some err), w3) \<Rightarrow>
                               (Inr removedCount, r, print (ThereWasAnError err) w3)
                           | (Inr (removedCount, None), w3) \<Rightarrow>
                               (Inr removedCount,
                                r\<lparr>heap := (heap r)(a \<mapsto>
                                     bchunk\<lparr>removed := True, numRemoved := Some removedCount\<rparr>)\<rparr>,
                                print (SuccessfullyRemoved removedCount (namespace r)) w3)))))"

definition sleep :: "nat \<Rightarrow> world \<Rightarrow> world" where
  "sleep secs w = w\<lparr>trace := trace w @ [Sleep secs]\<rparr>"

text \<open>
  The loop of \<open>removeAll\<close>, \<open>num\<close> the running sum. A failed assertion inside
  \<open>remove\<close> is an exception that nothing catches: it ends the loop. \<open>secs\<close> is
  \<open>0\<close> when the argument is left out.
\<close>

function removeAll_loop ::
  "nat \<Rightarrow> result \<Rightarrow> world \<Rightarrow> nat \<Rightarrow> (error + nat) \<times> result \<times> world" where
  "removeAll_loop secs r w num =
     (if hasNext r then
        (case next_chunk r of (c, r1) \<Rightarrow>
           (case remove_chunk r1 w of
              (Inl e, r2, w2) \<Rightarrow> (Inl e, r2, w2)
            | (Inr n, r2, w2) \<Rightarrow>
                removeAll_loop secs r2 (if secs \<noteq> 0 then sleep secs w2 else w2) (num + n)))
      else (Inr num, r, w))"
  by pat_completeness auto
termination
proof (relation "measure (\<lambda>(secs, r, w, num). nat (int (length (badChunks r)) - (iter r + 1)))")
  show "wf (measure (\<lambda>(secs, r, w, num). nat (int (length (badChunks r)) - (iter r + 1))))"
    by simp
next
  fix secs :: nat and r w num c r1 res rw n r2 w2
  assume h: "hasNext r" "(c, r1) = next_chunk r" "(res, rw) = remove_chunk r1 w"
    "res = Inr n" "(r2, w2) = rw"
  have frame: "iter r2 = iter r1 \<and> badChunks r2 = badChunks r1"
    using h(3,5)
    by (auto simp add: remove_chunk_def Let_def
        split: if_splits option.splits sum.splits prod.splits)
  have "iter r1 = iter r + 1 \<and> badChunks r1 = badChunks r"
    using h(2) by (simp add: next_chunk_def Let_def)
  with frame h(1)
  show "((secs, r2, if secs \<noteq> 0 then sleep secs w2 else w2, num + n), secs, r, w, num)
       \<in> measure (\<lambda>(secs, r, w, num). nat (int (length (badChunks r)) - (iter r + 1)))"
    by (simp add: hasNext_def split: if_splits)
qed

declare removeAll_loop.simps [simp del]

definition removeAll_chunks :: "nat \<Rightarrow> result \<Rightarrow> world \<Rightarrow> (error + nat) \<times> result \<times> world" where
  "removeAll_chunks secs r w = removeAll_loop secs (rewind r) w 0"

section \<open>The walk of removeAll, position by position\<close>

text \<open>
  What \<open>removeAll\<close> amounts to, written over a list of positions: \<open>remove()\<close> with the
  cursor on each position in turn, the counts summed, the walk ended only by an exception.
  It is compared with the loop of the script below.
\<close>

fun remove_each :: "nat \<Rightarrow> nat list \<Rightarrow> result \<Rightarrow> world \<Rightarrow> nat \<Rightarrow> (error + nat) \<times> result \<times> world" where
  "remove_each secs [] r w num = (Inr num, r, w)"
| "remove_each secs (i # is) r w num =
     (case remove_chunk (r\<lparr>iter := int i\<rparr>) w of
        (Inl e, r', w') \<Rightarrow> (Inl e, r', w')
      | (Inr n, r', w') \<Rightarrow>
          remove_each secs is r' (if secs \<noteq> 0 then sleep secs w' else w') (num + n))"

section \<open>Properties of traces\<close>

text \<open>An answer of the cluster that says the balancer is enabled or running.\<close>

definition active_obs :: "event \<Rightarrow> bool" where
  "active_obs ev = (ev = GetBalancerState True \<or> ev = IsBalancerRunning True)"

text \<open>An answer of \<open>getLastError()\<close> that the script takes for an error.\<close>

definition error_obs :: "event \<Rightarrow> bool" where
  "error_obs ev = (case ev of GetLastError e \<Rightarrow> truthy e | _ \<Rightarrow> False)"

text \<open>
  \<open>ends_at P new stopped\<close>: when \<open>stopped\<close>, the last event of \<open>new\<close> satisfies \<open>P\<close> and
  no earlier one does; otherwise no event of \<open>new\<close> does.
\<close>

definition ends_at :: "(event \<Rightarrow> bool) \<Rightarrow> event list \<Rightarrow> bool \<Rightarrow> bool" where
  "ends_at P new stopped =
     (if stopped then new \<noteq> [] \<and> P (last new) \<and> list_all (\<lambda>ev. \<not> P ev) (butlast new)
      else list_all (\<lambda>ev. \<not> P ev) new)"

text \<open>Every bulk delete comes right after the two probes of the balancer, both negative.\<close>

definition guarded :: "event list \<Rightarrow> bool" where
  "guarded new =
     (\<forall>pre s n b post. new = pre @ DeleteIds s n b # post \<longrightarrow>
        (\<exists>pre'. pre = pre' @ [GetBalancerState False, IsBalancerRunning False]))"

section \<open>The order of the BadChunks\<close>



section \<open>Orphans of a chunk on a shard\<close>

text \<open>The number of documents of collection \<open>ns\<close> on shard \<open>s\<close> that lie in chunk \<open>c\<close>.\<close>

definition orphans_on :: "world \<Rightarrow> string \<Rightarrow> string \<Rightarrow> chunk \<Rightarrow> nat" where
  "orphans_on w ns s c = length (range_docs (cmin c) (cmax c) (colls w s ns))"

text \<open>What the callback does to the result for a shard with \<open>n > 0\<close> such documents.\<close>

definition add_bad :: "nat \<Rightarrow> chunk \<Rightarrow> string \<Rightarrow> nat \<Rightarrow> result \<Rightarrow> result" where
  "add_bad a ch s n r =
     r\<lparr>count := count r + n, shardCounts := bump (shardCounts r) s n,
       heap := (heap r)(a \<mapsto> ch\<lparr>orphanedOn := Some s, orphanCount := Some n\<rparr>),
       badChunks := badChunks r @ [a]\<rparr>"

text \<open>A world that differs by further events only.\<close>

definition logged :: "event list \<Rightarrow> world \<Rightarrow> world" where
  "logged evs w = w\<lparr>trace := trace w @ evs\<rparr>"

text \<open>Two results that agree but for \<open>maxRange\<close>, \<open>lastMin\<close> and the heap from \<open>a\<close> on.\<close>

definition scan_eq :: "nat \<Rightarrow> result \<Rightarrow> result \<Rightarrow> bool" where
  "scan_eq a r r' =
     (count r' = count r \<and> shardCounts r' = shardCounts r \<and> badChunks r' = badChunks r \<and>
      connections r' = connections r \<and> namespace r' = namespace r \<and>
      (\<forall>x<a. heap r' x = heap r x))"

section \<open>Example clusters\<close>

definition mk_chunk :: "string \<Rightarrow> doc \<Rightarrow> doc \<Rightarrow> string \<Rightarrow> chunk" where
  "mk_chunk i lo hi s =
     \<lparr>cid = i, cns = ''test.orders'', cmin = lo, cmax = hi, cshard = s,
      orphanedOn = None, orphanCount = None, removed = False, numRemoved = None\<rparr>"

definition mk_doc :: "nat \<Rightarrow> int \<Rightarrow> document" where
  "mk_doc i k = \<lparr>did = i, dkey = [Num k]\<rparr>"

definition mk_world :: "string list \<Rightarrow> chunk list \<Rightarrow> (string \<Rightarrow> document list) \<Rightarrow> world" where
  "mk_world shards chunks data =
     \<lparr>isdbgrid = True, balancerState = [], balancerRunning = [], lastErrors = [],
      config_shards = shards, config_chunks = chunks,
      colls = (\<lambda>s ns. if ns = ''test.orders'' then data s else []),
      active = [], bsonWoCompare_defined = True, balancerParanoia = True, trace = []\<rparr>"

definition two_chunks :: result where
  "two_chunks =
     (new_result ''test.orders'' [''A''])
       \<lparr>heap := [0 \<mapsto> (mk_chunk ''b'' [Num 10] [Num 20] ''B'')
                        \<lparr>orphanedOn := Some ''A'', orphanCount := Some 2\<rparr>,
                 1 \<mapsto> (mk_chunk ''c'' [Num 20] [MaxKey] ''C'')
                        \<lparr>orphanedOn := Some ''A'', orphanCount := Some 1\<rparr>],
        badChunks := [0, 1], count := 3, shardCounts := [''A'' \<mapsto> 3]\<rparr>"

definition data_A :: "string \<Rightarrow> document list" where
  "data_A s = (if s = ''A'' then [mk_doc 1 3, mk_doc 2 11, mk_doc 3 12, mk_doc 4 25] else [])"

definition removed_once :: result where
  "removed_once =
     two_chunks\<lparr>iter := 0,
       heap := (heap two_chunks)(0 \<mapsto> (mk_chunk ''b'' [Num 10] [Num 20] ''B'')
          \<lparr>orphanedOn := Some ''A'', orphanCount := Some 2,
           removed := True, numRemoved := Some 2\<rparr>)\<rparr>"

text \<open>What a result shows: the count, the references, the chunks behind them, the tallies.\<close>

definition report ::
  "error + result \<Rightarrow> error + nat \<times> nat list \<times> chunk option list \<times> nat option list" where
  "report x =
     (case x of Inl e \<Rightarrow> Inl e
      | Inr r \<Rightarrow> Inr (count r, badChunks r, map (heap r) (badChunks r),
                       map (shardCounts r) (connections r)))"

text \<open>
  A chunk \<open>[0, 20)\<close> read before a split and its upper half \<open>[10, 20)\<close> read after it;
  shard B holds two documents of the range, which shard A owns.
\<close>

definition split_world :: world where
  "split_world =
     mk_world [''A'', ''B'']
       [mk_chunk ''x'' [Num 0] [Num 20] ''A'', mk_chunk ''y'' [Num 10] [Num 20] ''A'']
       (\<lambda>s. if s = ''A'' then [mk_doc 1 5] else if s = ''B'' then [mk_doc 2 12, mk_doc 3 15] else [])"

text \<open>One chunk owned by C, with two orphans on shard A and three on shard B.\<close>

definition two_shards_world :: world where
  "two_shards_world =
     mk_world [''A'', ''B'', ''C'']
       [mk_chunk ''x'' [Num 0] [Num 10] ''C'']
       (\<lambda>s. if s = ''A'' then [mk_doc 1 3, mk_doc 2 4]
            else if s = ''B'' then [mk_doc 3 5, mk_doc 4 6, mk_doc 5 7]
            else if s = ''C'' then [mk_doc 6 8] else [])"

text \<open>101 documents of chunk \<open>b\<close> on shard A; the second bulk delete will fail.\<close>

definition many_docs :: "string \<Rightarrow> document list" where
  "many_docs s = (if s = ''A'' then map (\<lambda>i. mk_doc i 11) [0..<101] else [])"

definition failing_world :: world where
  "failing_world = (mk_world [''A'', ''B'', ''C''] [] many_docs)\<lparr>lastErrors := [None, Some ''boom'']\<rparr>"

text \<open>The balancer is switched on again after the first probe.\<close>

definition reenabled_world :: world where
  "reenabled_world = (mk_world [''A'', ''B'', ''C''] [] data_A)\<lparr>balancerState := [False, True]\<rparr>"

text \<open>
  Three chunks owned by A, B and C; shard A also holds five documents of the chunk of B.
\<close>

definition orders_world :: world where
  "orders_world =
     mk_world [''A'', ''B'', ''C'']
       [mk_chunk ''a'' [MinKey] [Num 10] ''A'', mk_chunk ''b'' [Num 10] [Num 20] ''B'',
        mk_chunk ''c'' [Num 20] [MaxKey] ''C'']
       (\<lambda>s. if s = ''A'' then [mk_doc 1 3, mk_doc 2 11, mk_doc 3 12, mk_doc 4 13, mk_doc 5 14,
                                mk_doc 6 19]
            else if s = ''B'' then [mk_doc 7 15]
            else if s = ''C'' then [mk_doc 8 25] else [])"

section \<open>Evaluation\<close>

lemmas eval_defs =
  remove_chunk_def two_chunks_def new_result_def mk_world_def mk_chunk_def mk_doc_def
  data_A_def print_def connection_of_def range_docs_def Let_def balancer_off_def
  sh_getBalancerState_def sh_isBalancerRunning_def next_answer_def getLastError_def
  coll_remove_def truthy_def less_eq_bval_def less_bval_def
  find_ns_def chunks_of_def check_seen_def bsonWoCompare_def bump_def Shard_connections_def
  report_def split_world_def two_shards_world_def orders_world_def

section \<open>The cursor: next, hasNext, rewind\<close>


text \<open>
  C3, as the code has it. \<open>next()\<close> has no failure: it always moves the position on by
  one and returns \<open>current()\<close>. That is the BadChunk at the new position while one lies
  after the cursor, and \<open>undefined\<close> once the cursor stands on the last BadChunk or the
  result is empty; the position moves past the end all the same.
\<close>

theorem next_chunk_advances:
  "snd (next_chunk r) = r\<lparr>iter := iter r + 1\<rparr> \<and>
   (\<not> hasNext r \<longrightarrow> fst (next_chunk r) = None) \<and>
   (hasNext r \<and> - 1 \<le> iter r \<longrightarrow> fst (next_chunk r) = Some (badChunks r ! nat (iter r + 1)))"
  by (auto simp add: next_chunk_def current_def hasNext_def Let_def split: if_splits)

theorem next_chunk_advances_witness:
  "hasNext two_chunks \<and> fst (next_chunk two_chunks) = Some 0 \<and>
   \<not> hasNext (two_chunks\<lparr>iter := 1\<rparr>) \<and> fst (next_chunk (two_chunks\<lparr>iter := 1\<rparr>)) = None"
  using next_chunk_advances [of two_chunks] next_chunk_advances [of "two_chunks\<lparr>iter := 1\<rparr>"]
  by (simp add: two_chunks_def new_result_def hasNext_def)

text \<open>
  C3 as stated fails: on an empty result, and on the last of two BadChunks, \<open>next()\<close>
  returns \<open>undefined\<close> and leaves the cursor one further on.
\<close>

theorem next_past_end_counterexample:
  "\<not> hasNext (new_result ''test.orders'' []) \<and>
   next_chunk (new_result ''test.orders'' []) =
     (None, (new_result ''test.orders'' [])\<lparr>iter := 0\<rparr>) \<and>
   \<not> hasNext (two_chunks\<lparr>iter := 1\<rparr>) \<and>
   next_chunk (two_chunks\<lparr>iter := 1\<rparr>) = (None, two_chunks\<lparr>iter := 2\<rparr>)"
  by (simp add: two_chunks_def new_result_def hasNext_def next_chunk_def current_def Let_def)

section \<open>remove on one chunk\<close>

text \<open>
  C5. When the BadChunk under the cursor already has \<open>removed\<close> set, \<open>remove()\<close> returns
  0, leaves the result object as it is (the flag and \<open>numRemoved\<close> included), and does
  nothing to the cluster but print one message: no query, no delete.
\<close>

theorem remove_chunk_already_removed:
  assumes "current r = Some a" and "heap r a = Some c" and "removed c"
  shows "\<exists>m. remove_chunk r w = (Inr 0, r, w\<lparr>trace := trace w @ [Print m]\<rparr>)"
proof -
  from assms(1) have pos: "0 \<le> iter r" "iter r < int (length (badChunks r))"
    "badChunks r ! nat (iter r) = a"
    by (auto simp add: current_def split: if_splits)
  from pos have ne: "badChunks r \<noteq> []"
    by auto
  show ?thesis
  proof (cases "count r = 0")
    case True
    then have "remove_chunk r w = (Inr 0, r, print NothingToRemove w)"
      by (simp add: remove_chunk_def)
    then show ?thesis
      unfolding print_def by blast
  next
    case False
    with pos ne assms(2,3)
    have "remove_chunk r w = (Inr 0, r, print (AlreadyRemoved (cid c) (orphanedOn c)) w)"
      by (simp add: remove_chunk_def Let_def)
    then show ?thesis
      unfolding print_def by blast
  qed
qed

lemma removed_once_current: "current removed_once = Some 0"
  by (simp add: removed_once_def two_chunks_def new_result_def current_def)

lemma removed_once_heap:
  "heap removed_once 0 = Some ((mk_chunk ''b'' [Num 10] [Num 20] ''B'')
     \<lparr>orphanedOn := Some ''A'', orphanCount := Some 2, removed := True, numRemoved := Some 2\<rparr>)"
  by (simp add: removed_once_def)

theorem remove_chunk_already_removed_witness:
  "\<exists>m. remove_chunk removed_once (mk_world [''A'', ''B'', ''C''] [] data_A) =
     (Inr 0, removed_once,
      (mk_world [''A'', ''B'', ''C''] [] data_A)
        \<lparr>trace := trace (mk_world [''A'', ''B'', ''C''] [] data_A) @ [Print m]\<rparr>)"
  by (rule remove_chunk_already_removed [OF removed_once_current removed_once_heap]) simp

text \<open>
  C10. Whatever \<open>remove()\<close> returns, the result object keeps its \<open>count\<close>, its
  \<open>shardCounts\<close>, its array of BadChunks and its cursor position; the object is either
  untouched or differs in one place, the chunk under the cursor, whose \<open>removed\<close> is now
  set and whose \<open>numRemoved\<close> is the number returned.
\<close>

theorem remove_chunk_frame:
  assumes "remove_chunk r w = (res, r', w')"
  shows "count r' = count r \<and> shardCounts r' = shardCounts r \<and> badChunks r' = badChunks r \<and>
         iter r' = iter r \<and>
         (r' = r \<or>
          (\<exists>a c n. current r = Some a \<and> heap r a = Some c \<and> \<not> removed c \<and> res = Inr n \<and>
             r' = r\<lparr>heap := (heap r)(a \<mapsto> c\<lparr>removed := True, numRemoved := Some n\<rparr>)\<rparr>))"
  using assms
  by (auto simp add: remove_chunk_def current_def Let_def
      split: if_splits option.splits sum.splits prod.splits)

theorem remove_chunk_frame_witness:
  "fst (remove_chunk (two_chunks\<lparr>iter := 0\<rparr>) (mk_world [''A'', ''B'', ''C''] [] data_A)) = Inr 2 \<and>
   count (fst (snd (remove_chunk (two_chunks\<lparr>iter := 0\<rparr>)
     (mk_world [''A'', ''B'', ''C''] [] data_A)))) = 3 \<and>
   badChunks (fst (snd (remove_chunk (two_chunks\<lparr>iter := 0\<rparr>)
     (mk_world [''A'', ''B'', ''C''] [] data_A)))) = [0, 1] \<and>
   iter (fst (snd (remove_chunk (two_chunks\<lparr>iter := 0\<rparr>)
     (mk_world [''A'', ''B'', ''C''] [] data_A)))) = 0 \<and>
   shardCounts (fst (snd (remove_chunk (two_chunks\<lparr>iter := 0\<rparr>)
     (mk_world [''A'', ''B'', ''C''] [] data_A)))) ''A'' = Some 3"
  using remove_chunk_frame [of "two_chunks\<lparr>iter := 0\<rparr>" "mk_world [''A'', ''B'', ''C''] [] data_A"
      "fst (remove_chunk (two_chunks\<lparr>iter := 0\<rparr>) (mk_world [''A'', ''B'', ''C''] [] data_A))"
      "fst (snd (remove_chunk (two_chunks\<lparr>iter := 0\<rparr>) (mk_world [''A'', ''B'', ''C''] [] data_A)))"
      "snd (snd (remove_chunk (two_chunks\<lparr>iter := 0\<rparr>) (mk_world [''A'', ''B'', ''C''] [] data_A)))"]
  by (simp add: eval_defs)

section \<open>Orphans.find: the preconditions\<close>

text \<open>
  C6. \<open>find\<close> asserts in turn that the cluster answers \<open>isdbgrid\<close>, that the balancer
  is disabled and that it is not running. Each failure is an error of its own, and the
  only thing done before it is the probe of the balancer: no connection, no query.
\<close>

theorem find_ns_preconditions:
  "(\<not> isdbgrid w \<longrightarrow> find_ns ns w = (Inl NotAShardedCluster, w)) \<and>
   (isdbgrid w \<and> next_answer (balancerState w) \<longrightarrow>
      find_ns ns w =
        (Inl BalancerMustBeStopped,
         w\<lparr>balancerState := tl (balancerState w),
           trace := trace w @ [GetBalancerState True]\<rparr>)) \<and>
   (isdbgrid w \<and> \<not> next_answer (balancerState w) \<and> next_answer (balancerRunning w) \<longrightarrow>
      find_ns ns w =
        (Inl BalancerStillRunning,
         w\<lparr>balancerState := tl (balancerState w), balancerRunning := tl (balancerRunning w),
           trace := trace w @ [GetBalancerState False, IsBalancerRunning True]\<rparr>))"
  by (simp add: find_ns_def sh_getBalancerState_def sh_isBalancerRunning_def Let_def)

theorem find_ns_preconditions_witness:
  "fst (find_ns ''test.orders'' ((mk_world [''A''] [] data_A)\<lparr>isdbgrid := False\<rparr>)) =
     Inl NotAShardedCluster \<and>
   trace (snd (find_ns ''test.orders'' ((mk_world [''A''] [] data_A)\<lparr>isdbgrid := False\<rparr>))) = [] \<and>
   fst (find_ns ''test.orders'' ((mk_world [''A''] [] data_A)\<lparr>balancerState := [True]\<rparr>)) =
     Inl BalancerMustBeStopped \<and>
   trace (snd (find_ns ''test.orders'' ((mk_world [''A''] [] data_A)\<lparr>balancerState := [True]\<rparr>))) =
     [GetBalancerState True] \<and>
   fst (find_ns ''test.orders'' ((mk_world [''A''] [] data_A)\<lparr>balancerRunning := [True]\<rparr>)) =
     Inl BalancerStillRunning \<and>
   trace (snd (find_ns ''test.orders'' ((mk_world [''A''] [] data_A)\<lparr>balancerRunning := [True]\<rparr>))) =
     [GetBalancerState False, IsBalancerRunning True]"
  using find_ns_preconditions [of "(mk_world [''A''] [] data_A)\<lparr>isdbgrid := False\<rparr>" "''test.orders''"]
    find_ns_preconditions [of "(mk_world [''A''] [] data_A)\<lparr>balancerState := [True]\<rparr>" "''test.orders''"]
    find_ns_preconditions [of "(mk_world [''A''] [] data_A)\<lparr>balancerRunning := [True]\<rparr>" "''test.orders''"]
  by (simp add: mk_world_def next_answer_def)

section \<open>Orphans.find: what a scan reports\<close>

text \<open>
  C1, at a chunk with orphans on two shards. The callback assigns \<open>orphanedOn\<close> and
  \<open>orphanCount\<close> on the one chunk object and pushes that object once per offending
  shard. With two orphans on A and three on B the array holds the same reference twice,
  and both entries read shard B with three orphans; the two orphans on A are in the
  count and in the tally but no entry names A.
\<close>

theorem find_ns_two_shards_aliased:
  "report (fst (find_ns ''test.orders'' two_shards_world)) =
     Inr (5, [0, 0],
          [Some ((mk_chunk ''x'' [Num 0] [Num 10] ''C'')
                   \<lparr>orphanedOn := Some ''B'', orphanCount := Some 3\<rparr>),
           Some ((mk_chunk ''x'' [Num 0] [Num 10] ''C'')
                   \<lparr>orphanedOn := Some ''B'', orphanCount := Some 3\<rparr>)],
          [Some 2, Some 3, None])"
  by (simp add: eval_defs)

theorem find_ns_two_shards_aliased_witness:
  "map_sum id fst (report (fst (find_ns ''test.orders'' two_shards_world))) = Inr 5"
  using find_ns_two_shards_aliased by simp

text \<open>
  C2, at a chunk whose \<open>max\<close> does not exceed the largest seen. The message
  "Skipping chunk" is printed, and the shard loop runs for the chunk all the same: shard
  B is queried for \<open>[10, 20)\<close>, the chunk becomes a second BadChunk and its two
  documents are counted a second time.
\<close>

theorem find_ns_split_not_skipped:
  "report (fst (find_ns ''test.orders'' split_world)) =
     Inr (4, [0, 1],
          [Some ((mk_chunk ''x'' [Num 0] [Num 20] ''A'')
                   \<lparr>orphanedOn := Some ''B'', orphanCount := Some 2\<rparr>),
           Some ((mk_chunk ''y'' [Num 10] [Num 20] ''A'')
                   \<lparr>orphanedOn := Some ''B'', orphanCount := Some 2\<rparr>)],
          [None, Some 4]) \<and>
   trace (snd (find_ns ''test.orders'' split_world)) =
     [GetBalancerState False, IsBalancerRunning False, Print (Searching ''test.orders''),
      Connect ''A'', Connect ''B'',
      CountQuery ''A'' ''test.orders'', CountQuery ''B'' ''test.orders'',
      RangeCount ''B'' ''test.orders'' [Num 0] [Num 20],
      Print (SkippingChunk [Num 20]),
      RangeCount ''B'' ''test.orders'' [Num 10] [Num 20],
      Print (OrphansFound 4 2 ''test.orders'')]"
  by (simp add: eval_defs)

theorem find_ns_split_not_skipped_witness:
  "map_sum id fst (report (fst (find_ns ''test.orders'' split_world))) = Inr 4"
  using find_ns_split_not_skipped by simp

section \<open>Orphans.find: orphans on a single shard\<close>

lemma logged_logged: "logged ys (logged xs w) = logged (xs @ ys) w"
  by (simp add: logged_def)

lemma orphans_on_logged: "orphans_on (logged evs w) ns s c = orphans_on w ns s c"
  by (simp add: orphans_on_def logged_def)

lemma add_bad_fields:
  "namespace (add_bad a ch s n r) = namespace r"
  "connections (add_bad a ch s n r) = connections r"
  by (simp_all add: add_bad_def)

lemma query_shards_owner:
  "t = cshard ch \<Longrightarrow> query_shards a ch (t # rest) r w = query_shards a ch rest r w"
  by simp

lemma query_shards_zero:
  "t \<noteq> cshard ch \<Longrightarrow> orphans_on w (namespace r) t ch = 0 \<Longrightarrow>
   query_shards a ch (t # rest) r w =
     query_shards a ch rest r (logged [RangeCount t (namespace r) (cmin ch) (cmax ch)] w)"
  by (simp add: Let_def orphans_on_def logged_def)

lemma query_shards_hit:
  "t \<noteq> cshard ch \<Longrightarrow> orphans_on w (namespace r) t ch = n \<Longrightarrow> 0 < n \<Longrightarrow>
   query_shards a ch (t # rest) r w =
     query_shards a ch rest (add_bad a ch t n r)
       (logged [RangeCount t (namespace r) (cmin ch) (cmax ch)] w)"
  by (auto simp add: Let_def orphans_on_def logged_def add_bad_def)

lemma query_shards_none:
  "\<forall>t\<in>set conns. t \<noteq> cshard ch \<longrightarrow> orphans_on w (namespace r) t ch = 0 \<Longrightarrow>
   \<exists>evs. query_shards a ch conns r w = (r, logged evs w)"
proof (induction conns arbitrary: w)
  case Nil
  show ?case by (intro exI [of _ "[]"]) (simp add: logged_def)
next
  case (Cons t rest)
  show ?case
  proof (cases "t = cshard ch")
    case True
    from Cons.IH [of w] Cons.prems obtain evs where
      "query_shards a ch rest r w = (r, logged evs w)"
      by auto
    with True show ?thesis
      by (simp only: query_shards_owner) blast
  next
    case False
    let ?ev = "[RangeCount t (namespace r) (cmin ch) (cmax ch)]"
    from Cons.prems False have z: "orphans_on w (namespace r) t ch = 0"
      by simp
    from Cons.prems have "\<forall>t\<in>set rest. t \<noteq> cshard ch \<longrightarrow> orphans_on (logged ?ev w) (namespace r) t ch = 0"
      by (simp add: orphans_on_logged)
    from Cons.IH [OF this] obtain evs where
      "query_shards a ch rest r (logged ?ev w) = (r, logged evs (logged ?ev w))"
      by blast
    then have "query_shards a ch (t # rest) r w = (r, logged (?ev @ evs) w)"
      by (simp only: query_shards_zero [OF False z] logged_logged)
    then show ?thesis by blast
  qed
qed

lemma query_shards_one:
  "distinct conns \<Longrightarrow> s \<in> set conns \<Longrightarrow> s \<noteq> cshard ch \<Longrightarrow>
   orphans_on w (namespace r) s ch = n \<Longrightarrow> 0 < n \<Longrightarrow>
   \<forall>t\<in>set conns. t \<noteq> cshard ch \<and> t \<noteq> s \<longrightarrow> orphans_on w (namespace r) t ch = 0 \<Longrightarrow>
   \<exists>evs. query_shards a ch conns r w = (add_bad a ch s n r, logged evs w)"
proof (induction conns arbitrary: w)
  case Nil
  then show ?case by simp
next
  case (Cons t rest)
  let ?ev = "[RangeCount t (namespace r) (cmin ch) (cmax ch)]"
  show ?case
  proof (cases "t = s")
    case True
    with Cons.prems have "s \<notin> set rest" by simp
    with Cons.prems(6)
    have "\<forall>t\<in>set rest. t \<noteq> cshard ch \<longrightarrow>
            orphans_on (logged ?ev w) (namespace (add_bad a ch s n r)) t ch = 0"
      by (auto simp add: orphans_on_logged add_bad_fields)
    from query_shards_none [OF this] obtain evs where
      "query_shards a ch rest (add_bad a ch s n r) (logged ?ev w) =
         (add_bad a ch s n r, logged evs (logged ?ev w))"
      by blast
    then have "query_shards a ch (t # rest) r w = (add_bad a ch s n r, logged (?ev @ evs) w)"
      by (simp only: True query_shards_hit [OF Cons.prems(3,4,5)] logged_logged)
    then show ?thesis by blast
  next
    case ts: False
    with Cons.prems have rest: "distinct rest" "s \<in> set rest"
      "\<forall>t\<in>set rest. t \<noteq> cshard ch \<and> t \<noteq> s \<longrightarrow> orphans_on w (namespace r) t ch = 0"
      by auto
    show ?thesis
    proof (cases "t = cshard ch")
      case True
      from Cons.IH [OF rest(1,2) Cons.prems(3,4,5) rest(3)] obtain evs where
        "query_shards a ch rest r w = (add_bad a ch s n r, logged evs w)"
        by blast
      with True show ?thesis
        by (simp only: query_shards_owner) blast
    next
      case False
      with ts Cons.prems(6) have z: "orphans_on w (namespace r) t ch = 0"
        by simp
      have "orphans_on (logged ?ev w) (namespace r) s ch = n"
        using Cons.prems(4) by (simp add: orphans_on_logged)
      moreover have "\<forall>t\<in>set rest. t \<noteq> cshard ch \<and> t \<noteq> s \<longrightarrow>
          orphans_on (logged ?ev w) (namespace r) t ch = 0"
        using rest(3) by (simp add: orphans_on_logged)
      ultimately obtain evs where
        "query_shards a ch rest r (logged ?ev w) = (add_bad a ch s n r, logged evs (logged ?ev w))"
        using Cons.IH [OF rest(1,2) Cons.prems(3) _ Cons.prems(5), of "logged ?ev w"] by blast
      then have "query_shards a ch (t # rest) r w = (add_bad a ch s n r, logged (?ev @ evs) w)"
        by (simp only: query_shards_zero [OF False z] logged_logged)
      then show ?thesis by blast
    qed
  qed
qed

lemma check_seen_Inr:
  "check_seen precise ch r w = (Inr r1, w1) \<Longrightarrow>
   count r1 = count r \<and> shardCounts r1 = shardCounts r \<and> badChunks r1 = badChunks r \<and>
   connections r1 = connections r \<and> namespace r1 = namespace r \<and> heap r1 = heap r \<and>
   (\<exists>evs. w1 = logged evs w)"
proof (cases "precise \<and> \<not> bsonWoCompare (maxRange r) (cmax ch) < 0")
  case True
  assume "check_seen precise ch r w = (Inr r1, w1)"
  with True have "r1 = r" "w1 = logged [Print (SkippingChunk (cmax ch))] w"
    by (auto simp add: check_seen_def Let_def print_def logged_def split: if_splits)
  then show ?thesis by blast
next
  case False
  assume "check_seen precise ch r w = (Inr r1, w1)"
  with False have "w1 = logged [] w"
    and "r1 = r \<or> r1 = r\<lparr>maxRange := cmax ch, lastMin := cmin ch\<rparr>"
    by (auto simp add: check_seen_def logged_def split: if_splits)
  then show ?thesis by auto
qed

lemma find_chunks_step:
  assumes "find_chunks precise a (ch # chs) r w = (Inr r', w')"
  obtains r1 evs r2 w2 where
    "count r1 = count r" "shardCounts r1 = shardCounts r" "badChunks r1 = badChunks r"
    "connections r1 = connections r" "namespace r1 = namespace r"
    "heap r1 = (heap r)(a \<mapsto> ch)"
    "query_shards a ch (connections r) r1 (logged evs w) = (r2, w2)"
    "find_chunks precise (Suc a) chs r2 w2 = (Inr r', w')"
proof -
  obtain res1 w1 where cs: "check_seen precise ch (r\<lparr>heap := (heap r)(a \<mapsto> ch)\<rparr>) w = (res1, w1)"
    by (metis surj_pair)
  with assms obtain r1 where r1: "res1 = Inr r1"
    by (cases res1) auto
  from check_seen_Inr [OF cs [unfolded r1]] obtain evs where
    f: "count r1 = count r" "shardCounts r1 = shardCounts r" "badChunks r1 = badChunks r"
       "connections r1 = connections r" "namespace r1 = namespace r"
       "heap r1 = (heap r)(a \<mapsto> ch)" "w1 = logged evs w"
    by auto
  obtain r2 w2 where qs: "query_shards a ch (connections r1) r1 w1 = (r2, w2)"
    by (metis surj_pair)
  with assms cs r1 have "find_chunks precise (Suc a) chs r2 w2 = (Inr r', w')"
    by simp
  with f qs that show thesis by simp
qed

lemma find_chunks_none:
  "find_chunks precise a chs r w = (Inr r', w') \<Longrightarrow>
   \<forall>c\<in>set chs. \<forall>t\<in>set (connections r). t \<noteq> cshard c \<longrightarrow> orphans_on w (namespace r) t c = 0 \<Longrightarrow>
   scan_eq a r r' \<and> (\<exists>evs. w' = logged evs w)"
proof (induction chs arbitrary: a r w)
  case Nil
  then have "r' = r" "w' = logged [] w" by (simp_all add: logged_def)
  then show ?case by (auto simp add: scan_eq_def)
next
  case (Cons ch chs)
  from Cons.prems(1) obtain r1 evs r2 w2 where
    f: "count r1 = count r" "shardCounts r1 = shardCounts r" "badChunks r1 = badChunks r"
       "connections r1 = connections r" "namespace r1 = namespace r"
       "heap r1 = (heap r)(a \<mapsto> ch)"
    and qs: "query_shards a ch (connections r) r1 (logged evs w) = (r2, w2)"
    and rec: "find_chunks precise (Suc a) chs r2 w2 = (Inr r', w')"
    by (rule find_chunks_step)
  from Cons.prems(2) f(5)
  have "\<forall>t\<in>set (connections r). t \<noteq> cshard ch \<longrightarrow>
          orphans_on (logged evs w) (namespace r1) t ch = 0"
    by (simp add: orphans_on_logged)
  from query_shards_none [OF this, of a] qs obtain evs2 where
    q: "r2 = r1" "w2 = logged evs2 (logged evs w)"
    by auto
  have "\<forall>c\<in>set chs. \<forall>t\<in>set (connections r1). t \<noteq> cshard c \<longrightarrow>
          orphans_on (logged (evs @ evs2) w) (namespace r1) t c = 0"
    using Cons.prems(2) f(4,5) by (simp add: orphans_on_logged)
  from Cons.IH [OF rec [unfolded q logged_logged] this] obtain evs3 where
    ih: "scan_eq (Suc a) r1 r'" "w' = logged evs3 (logged (evs @ evs2) w)"
    by blast
  from ih(1) f have "scan_eq a r r'"
    by (auto simp add: scan_eq_def)
  moreover from ih(2) have "w' = logged ((evs @ evs2) @ evs3) w"
    by (simp only: logged_logged)
  ultimately show ?case by blast
qed

lemma find_chunks_one:
  "find_chunks precise a (pre @ c # post) r w = (Inr r', w') \<Longrightarrow>
   distinct (connections r) \<Longrightarrow> s \<in> set (connections r) \<Longrightarrow> s \<noteq> cshard c \<Longrightarrow>
   orphans_on w (namespace r) s c = n \<Longrightarrow> 0 < n \<Longrightarrow>
   \<forall>t\<in>set (connections r). t \<noteq> cshard c \<and> t \<noteq> s \<longrightarrow> orphans_on w (namespace r) t c = 0 \<Longrightarrow>
   \<forall>c'\<in>set pre \<union> set post. \<forall>t\<in>set (connections r). t \<noteq> cshard c' \<longrightarrow>
      orphans_on w (namespace r) t c' = 0 \<Longrightarrow>
   badChunks r' = badChunks r @ [a + length pre] \<and> count r' = count r + n \<and>
   shardCounts r' = bump (shardCounts r) s n \<and>
   heap r' (a + length pre) = Some (c\<lparr>orphanedOn := Some s, orphanCount := Some n\<rparr>)"
proof (induction pre arbitrary: a r w)
  case Nil
  from Nil.prems(1) have "find_chunks precise a (c # post) r w = (Inr r', w')"
    by (simp only: append_Nil)
  then obtain r1 evs r2 w2 where
    f: "count r1 = count r" "shardCounts r1 = shardCounts r" "badChunks r1 = badChunks r"
       "connections r1 = connections r" "namespace r1 = namespace r"
       "heap r1 = (heap r)(a \<mapsto> c)"
    and qs: "query_shards a c (connections r) r1 (logged evs w) = (r2, w2)"
    and rec: "find_chunks precise (Suc a) post r2 w2 = (Inr r', w')"
    by (rule find_chunks_step)
  have one: "orphans_on (logged evs w) (namespace r1) s c = n"
    using Nil.prems(5) f(5) by (simp add: orphans_on_logged)
  have others: "\<forall>t\<in>set (connections r). t \<noteq> cshard c \<and> t \<noteq> s \<longrightarrow>
      orphans_on (logged evs w) (namespace r1) t c = 0"
    using Nil.prems(7) f(5) by (simp add: orphans_on_logged)
  from query_shards_one [OF Nil.prems(2,3,4) one Nil.prems(6) others, of a] qs obtain evs2 where
    q: "r2 = add_bad a c s n r1" "w2 = logged evs2 (logged evs w)"
    by auto
  have "\<forall>c'\<in>set post. \<forall>t\<in>set (connections (add_bad a c s n r1)). t \<noteq> cshard c' \<longrightarrow>
      orphans_on (logged (evs @ evs2) w) (namespace (add_bad a c s n r1)) t c' = 0"
    using Nil.prems(8) f(4,5) by (simp add: orphans_on_logged add_bad_fields)
  from find_chunks_none [OF rec [unfolded q logged_logged] this]
  have "scan_eq (Suc a) (add_bad a c s n r1) r'"
    by blast
  then show ?case
    using f by (simp add: scan_eq_def add_bad_def)
next
  case (Cons p ps)
  from Cons.prems(1) have "find_chunks precise a (p # (ps @ c # post)) r w = (Inr r', w')"
    by (simp only: append_Cons)
  then obtain r1 evs r2 w2 where
    f: "count r1 = count r" "shardCounts r1 = shardCounts r" "badChunks r1 = badChunks r"
       "connections r1 = connections r" "namespace r1 = namespace r"
       "heap r1 = (heap r)(a \<mapsto> p)"
    and qs: "query_shards a p (connections r) r1 (logged evs w) = (r2, w2)"
    and rec: "find_chunks precise (Suc a) (ps @ c # post) r2 w2 = (Inr r', w')"
    by (rule find_chunks_step)
  from Cons.prems(8) f(5)
  have "\<forall>t\<in>set (connections r). t \<noteq> cshard p \<longrightarrow>
          orphans_on (logged evs w) (namespace r1) t p = 0"
    by (simp add: orphans_on_logged)
  from query_shards_none [OF this, of a] qs obtain evs2 where
    q: "r2 = r1" "w2 = logged evs2 (logged evs w)"
    by auto
  note rec' = rec [unfolded q logged_logged]
  have h: "distinct (connections r1)" "s \<in> set (connections r1)"
    "orphans_on (logged (evs @ evs2) w) (namespace r1) s c = n"
    "\<forall>t\<in>set (connections r1). t \<noteq> cshard c \<and> t \<noteq> s \<longrightarrow>
       orphans_on (logged (evs @ evs2) w) (namespace r1) t c = 0"
    "\<forall>c'\<in>set ps \<union> set post. \<forall>t\<in>set (connections r1). t \<noteq> cshard c' \<longrightarrow>
       orphans_on (logged (evs @ evs2) w) (namespace r1) t c' = 0"
    using Cons.prems(2,3,5,7,8) f(4,5) by (simp_all add: orphans_on_logged)
  from Cons.IH [OF rec' h(1,2) Cons.prems(4) h(3) Cons.prems(6) h(4,5)]
  show ?case using f by simp
qed


lemma query_shards_connections:
  "query_shards a ch conns r w = (r', w') \<Longrightarrow>
   connections r' = connections r \<and> namespace r' = namespace r"
proof (induction conns arbitrary: r w)
  case Nil
  then show ?case by simp
next
  case (Cons t rest)
  let ?n = "orphans_on w (namespace r) t ch"
  let ?w1 = "logged [RangeCount t (namespace r) (cmin ch) (cmax ch)] w"
  consider "t = cshard ch" | "t \<noteq> cshard ch" "?n = 0" | "t \<noteq> cshard ch" "0 < ?n"
    by auto
  then show ?case
  proof cases
    case 1
    from Cons.prems have "query_shards a ch rest r w = (r', w')"
      by (simp only: query_shards_owner [OF 1])
    from Cons.IH [OF this] show ?thesis .
  next
    case 2
    from Cons.prems have "query_shards a ch rest r ?w1 = (r', w')"
      by (simp only: query_shards_zero [OF 2(1,2)])
    from Cons.IH [OF this] show ?thesis .
  next
    case 3
    from Cons.prems have "query_shards a ch rest (add_bad a ch t ?n r) ?w1 = (r', w')"
      by (simp only: query_shards_hit [OF 3(1) refl 3(2)])
    from Cons.IH [OF this] show ?thesis
      by (simp add: add_bad_fields)
  qed
qed

lemma find_chunks_connections:
  "find_chunks precise a chs r w = (Inr r', w') \<Longrightarrow>
   connections r' = connections r \<and> namespace r' = namespace r"
proof (induction chs arbitrary: a r w)
  case Nil
  then show ?case by simp
next
  case (Cons ch chs)
  from Cons.prems obtain r1 evs r2 w2 where
    f: "connections r1 = connections r" "namespace r1 = namespace r"
    and qs: "query_shards a ch (connections r) r1 (logged evs w) = (r2, w2)"
    and rec: "find_chunks precise (Suc a) chs r2 w2 = (Inr r', w')"
    by (rule find_chunks_step)
  from query_shards_connections [OF qs] Cons.IH [OF rec] f show ?case
    by simp
qed

lemma find_ns_scan:
  assumes run: "find_ns ns w = (Inr r, w')"
  obtains conns w6 w7 where
    "find_chunks (bsonWoCompare_defined w) 0 (chunks_of ns w) (new_result ns conns) w6 = (Inr r, w7)"
    "colls w6 = colls w"
    "distinct (config_shards w) \<longrightarrow> distinct conns"
proof -
  define w2 where "w2 = snd (sh_isBalancerRunning (snd (sh_getBalancerState w)))"
  define w3 where "w3 = print (Searching ns) w2"
  define shardConns where "shardConns = fst (Shard_connections w3)"
  define w4 where "w4 = snd (Shard_connections w3)"
  define w5 where "w5 = (if bsonWoCompare_defined w3 then w4 else print BsonWoCompareUndefined w4)"
  define conns where "conns = filter (\<lambda>s. length (colls w5 s ns) > 0) shardConns"
  define w6 where "w6 = w5\<lparr>trace := trace w5 @ map (\<lambda>s. CountQuery s ns) shardConns\<rparr>"
  have same: "colls w6 = colls w" "config_chunks w6 = config_chunks w"
    "bsonWoCompare_defined w3 = bsonWoCompare_defined w"
    by (simp_all add: w6_def w5_def w4_def w3_def w2_def print_def Shard_connections_def
        sh_getBalancerState_def sh_isBalancerRunning_def Let_def)
  have dist: "distinct (config_shards w) \<longrightarrow> distinct conns"
    by (simp add: conns_def shardConns_def w3_def w2_def print_def Shard_connections_def
        sh_getBalancerState_def sh_isBalancerRunning_def Let_def)
  have pre: "isdbgrid w" "\<not> fst (sh_getBalancerState w)"
    "\<not> fst (sh_isBalancerRunning (snd (sh_getBalancerState w)))"
    using run by (auto simp add: find_ns_def case_prod_beta split: if_splits)
  let ?fc = "find_chunks (bsonWoCompare_defined w3) 0 (chunks_of ns w6) (new_result ns conns) w6"
  have "fst (find_ns ns w) = (case fst ?fc of Inl e \<Rightarrow> Inl e | Inr r \<Rightarrow> Inr r)"
    using pre
    by (simp add: find_ns_def Let_def case_prod_beta
        w6_def w5_def w4_def w3_def w2_def conns_def shardConns_def split: sum.splits)
  with run have "fst ?fc = Inr r"
    by (cases "fst ?fc") simp_all
  then obtain w7 where
    "find_chunks (bsonWoCompare_defined w3) 0 (chunks_of ns w6) (new_result ns conns) w6 = (Inr r, w7)"
    by (metis prod.collapse)
  then have "find_chunks (bsonWoCompare_defined w) 0 (chunks_of ns w) (new_result ns conns) w6 = (Inr r, w7)"
    using same by (simp add: chunks_of_def)
  with same(1) dist that show thesis by blast
qed

text \<open>
  The part of C1 that the code keeps: when, among the connected shards, the documents
  inside chunk ranges that their shard does not own all lie on one shard \<open>s\<close> and in one
  chunk \<open>c\<close>, the result has exactly one BadChunk, it is \<open>c\<close> with \<open>orphanedOn = s\<close>
  and \<open>orphanCount\<close> the number of those documents, and the count and the tally of
  \<open>s\<close> are that number.
\<close>

lemma find_ns_single_offender:
  assumes run: "find_ns ns w = (Inr r, w')"
    and d: "distinct (config_shards w)"
    and chs: "chunks_of ns w = pre @ c # post"
    and s: "s \<in> set (connections r)" "s \<noteq> cshard c"
    and n: "orphans_on w ns s c = n" "0 < n"
    and others: "\<forall>t\<in>set (connections r). t \<noteq> cshard c \<and> t \<noteq> s \<longrightarrow> orphans_on w ns t c = 0"
    and rest: "\<forall>c'\<in>set pre \<union> set post. \<forall>t\<in>set (connections r). t \<noteq> cshard c' \<longrightarrow>
                 orphans_on w ns t c' = 0"
  shows "badChunks r = [length pre] \<and>
         heap r (length pre) = Some (c\<lparr>orphanedOn := Some s, orphanCount := Some n\<rparr>) \<and>
         count r = n \<and> shardCounts r s = Some n"
proof -
  from run obtain conns w6 w7 where
    fc: "find_chunks (bsonWoCompare_defined w) 0 (chunks_of ns w) (new_result ns conns) w6 = (Inr r, w7)"
    and cw: "colls w6 = colls w"
    and dc: "distinct (config_shards w) \<longrightarrow> distinct conns"
    by (rule find_ns_scan)
  let ?r0 = "new_result ns conns"
  from find_chunks_connections [OF fc] have cr: "connections r = conns" "namespace r = ns"
    by (simp_all add: new_result_def)
  have r0: "connections ?r0 = conns" "namespace ?r0 = ns"
    by (simp_all add: new_result_def)
  have oo: "\<And>t c. orphans_on w6 ns t c = orphans_on w ns t c"
    using cw by (simp add: orphans_on_def)
  note fc' = fc [unfolded chs]
  have "badChunks r = badChunks ?r0 @ [0 + length pre] \<and> count r = count ?r0 + n \<and>
        shardCounts r = bump (shardCounts ?r0) s n \<and>
        heap r (0 + length pre) = Some (c\<lparr>orphanedOn := Some s, orphanCount := Some n\<rparr>)"
  proof (rule find_chunks_one [OF fc'])
    show "distinct (connections ?r0)" using dc d r0 by simp
    show "s \<in> set (connections ?r0)" using s(1) cr r0 by simp
    show "s \<noteq> cshard c" by (rule s(2))
    show "orphans_on w6 (namespace ?r0) s c = n" using n(1) r0 oo by simp
    show "0 < n" by (rule n(2))
    show "\<forall>t\<in>set (connections ?r0). t \<noteq> cshard c \<and> t \<noteq> s \<longrightarrow>
            orphans_on w6 (namespace ?r0) t c = 0"
      using others cr r0 oo by simp
    show "\<forall>c'\<in>set pre \<union> set post. \<forall>t\<in>set (connections ?r0). t \<noteq> cshard c' \<longrightarrow>
            orphans_on w6 (namespace ?r0) t c' = 0"
      using rest cr r0 oo by simp
  qed
  then show ?thesis
    by (simp add: new_result_def bump_def)
qed

lemma find_ns_single_offender_orders:
  "report (fst (find_ns ''test.orders'' orders_world)) =
     Inr (5, [1],
          [Some ((mk_chunk ''b'' [Num 10] [Num 20] ''B'')
                   \<lparr>orphanedOn := Some ''A'', orphanCount := Some 5\<rparr>)],
          [Some 5, None, None])"
proof -
  let ?r = "projr (fst (find_ns ''test.orders'' orders_world))"
  have "\<exists>r. fst (find_ns ''test.orders'' orders_world) = Inr r"
    by (simp add: eval_defs)
  then have run: "find_ns ''test.orders'' orders_world =
      (Inr ?r, snd (find_ns ''test.orders'' orders_world))"
    by (metis prod.collapse sum.sel(2))
  have isr: "fst (find_ns ''test.orders'' orders_world) = Inr ?r"
    using run by (metis fst_conv)
  have conns: "connections ?r = [''A'', ''B'', ''C'']"
    by (simp add: eval_defs)
  have tally: "map (shardCounts ?r) [''B'', ''C''] = [None, None]"
    by (simp add: eval_defs)
  have d: "distinct (config_shards orders_world)"
    by (simp add: orders_world_def mk_world_def)
  have chs: "chunks_of ''test.orders'' orders_world =
      [mk_chunk ''a'' [MinKey] [Num 10] ''A''] @ mk_chunk ''b'' [Num 10] [Num 20] ''B'' #
      [mk_chunk ''c'' [Num 20] [MaxKey] ''C'']"
    by (simp add: eval_defs)
  have one: "orphans_on orders_world ''test.orders'' ''A'' (mk_chunk ''b'' [Num 10] [Num 20] ''B'') = 5"
    by (simp add: orphans_on_def eval_defs)
  from find_ns_single_offender [OF run d chs, of "''A''" 5]
  have "badChunks ?r = [1] \<and>
        heap ?r 1 = Some ((mk_chunk ''b'' [Num 10] [Num 20] ''B'')
                            \<lparr>orphanedOn := Some ''A'', orphanCount := Some 5\<rparr>) \<and>
        count ?r = 5 \<and> shardCounts ?r ''A'' = Some 5"
    using one conns
    by (simp add: orphans_on_def eval_defs)
  with conns tally show ?thesis
    by (subst isr) (simp add: report_def)
qed

section \<open>removeAll: the loop and the positions\<close>

lemma remove_chunk_keeps_cursor:
  "remove_chunk r w = (res, r', w') \<Longrightarrow> iter r' = iter r \<and> badChunks r' = badChunks r"
  by (auto simp add: remove_chunk_def Let_def
      split: if_splits option.splits sum.splits prod.splits)

lemma removeAll_loop_remove_each:
  "- 1 \<le> iter r \<Longrightarrow>
   removeAll_loop secs r w num =
     remove_each secs [nat (iter r + 1)..<length (badChunks r)] r w num"
proof (induction secs r w num rule: removeAll_loop.induct)
  case (1 secs r w num)
  show ?case
  proof (cases "hasNext r")
    case False
    then have "int (length (badChunks r)) \<le> iter r + 1"
      by (simp add: hasNext_def split: if_splits)
    then have "length (badChunks r) \<le> nat (iter r + 1)"
      by linarith
    then have "remove_each secs [nat (iter r + 1)..<length (badChunks r)] r w num = (Inr num, r, w)"
      by simp
    with False show ?thesis
      by (subst removeAll_loop.simps) simp
  next
    case True
    define k where "k = nat (iter r + 1)"
    from True "1.prems" have k: "k < length (badChunks r)" "iter r + 1 = int k"
      by (auto simp add: hasNext_def k_def split: if_splits)
    then have upt: "[nat (iter r + 1)..<length (badChunks r)] = k # [Suc k..<length (badChunks r)]"
      by (simp add: upt_conv_Cons)
    obtain c where nc: "next_chunk r = (c, r\<lparr>iter := int k\<rparr>)"
      using k by (simp add: next_chunk_def Let_def)
    obtain res r2 w2 where rc: "remove_chunk (r\<lparr>iter := int k\<rparr>) w = (res, r2, w2)"
      by (metis prod_cases3)
    from remove_chunk_keeps_cursor [OF rc]
    have fr: "iter r2 = int k" "badChunks r2 = badChunks r"
      by simp_all
    show ?thesis
    proof (cases res)
      case (Inl e)
      with True nc rc upt show ?thesis
        by (subst removeAll_loop.simps) simp
    next
      case (Inr n)
      have "removeAll_loop secs r2 (if secs \<noteq> 0 then sleep secs w2 else w2) (num + n) =
            remove_each secs [nat (iter r2 + 1)..<length (badChunks r2)] r2
              (if secs \<noteq> 0 then sleep secs w2 else w2) (num + n)"
        using "1.IH" [OF True nc [symmetric] _ Inr, of "(r2, w2)" r2 w2] rc fr
        by simp
      then have "removeAll_loop secs r2 (if secs \<noteq> 0 then sleep secs w2 else w2) (num + n) =
            remove_each secs [Suc k..<length (badChunks r)] r2
              (if secs \<noteq> 0 then sleep secs w2 else w2) (num + n)"
        using fr by (simp add: nat_add_distrib)
      with True nc rc upt Inr show ?thesis
        by (subst removeAll_loop.simps) simp
    qed
  qed
qed

section \<open>The trace of a removal\<close>

lemma ends_at_append:
  "list_all (\<lambda>ev. \<not> P ev) xs \<Longrightarrow> ends_at P ys b \<Longrightarrow> ends_at P (xs @ ys) b"
  by (auto simp add: ends_at_def butlast_append)

lemma ends_at_Nil: "ends_at P [] False"
  by (simp add: ends_at_def)

lemma ends_at_unique:
  assumes "ends_at P new b" and "new = pre @ ev # post" and "P ev"
  shows "b \<and> post = []"
proof -
  from assms(2,3) have ex: "\<not> list_all (\<lambda>ev. \<not> P ev) new"
    by (auto simp add: list_all_iff)
  with assms(1) have b: b
    by (auto simp add: ends_at_def split: if_splits)
  have "post = []"
  proof (rule ccontr)
    assume "post \<noteq> []"
    then have "butlast new = pre @ ev # butlast post"
      using assms(2) by (simp add: butlast_append)
    with assms(1) b assms(3) show False
      by (auto simp add: ends_at_def)
  qed
  with b show ?thesis by simp
qed

text \<open>The balancer probe of one batch.\<close>

lemma balancer_off_trace:
  assumes "balancer_off w = (ok, w1)"
  shows "\<exists>new. w1 = w\<lparr>balancerState := balancerState w1, balancerRunning := balancerRunning w1,
                        trace := trace w @ new\<rparr> \<and>
           ends_at active_obs new (\<not> ok) \<and> list_all (\<lambda>ev. \<not> error_obs ev) new"
proof (cases "next_answer (balancerState w)")
  case True
  with assms have "ok = False"
    and "w1 = w\<lparr>balancerState := tl (balancerState w), trace := trace w @ [GetBalancerState True]\<rparr>"
    by (auto simp add: balancer_off_def sh_getBalancerState_def Let_def)
  then show ?thesis
    by (intro exI [of _ "[GetBalancerState True]"])
       (simp add: ends_at_def active_obs_def error_obs_def)
next
  case False
  with assms have ok: "ok = (\<not> next_answer (balancerRunning w))"
    and w1: "w1 = w\<lparr>balancerState := tl (balancerState w), balancerRunning := tl (balancerRunning w),
       trace := trace w @ [GetBalancerState False, IsBalancerRunning (next_answer (balancerRunning w))]\<rparr>"
    by (auto simp add: balancer_off_def sh_getBalancerState_def sh_isBalancerRunning_def Let_def)
  show ?thesis
    by (intro exI [of _ "[GetBalancerState False, IsBalancerRunning (next_answer (balancerRunning w))]"])
       (simp add: ok w1 ends_at_def active_obs_def error_obs_def)
qed


lemma guard_trace:
  assumes "(if balancerParanoia w then balancer_off w else (True, w)) = (ok, w1)"
  shows "\<exists>new. trace w1 = trace w @ new \<and> colls w1 = colls w \<and> lastErrors w1 = lastErrors w \<and>
           ends_at active_obs new (\<not> ok) \<and> list_all (\<lambda>ev. \<not> error_obs ev) new"
proof (cases "balancerParanoia w")
  case True
  with assms have "balancer_off w = (ok, w1)" by simp
  from balancer_off_trace [OF this] obtain new where
    n: "w1 = w\<lparr>balancerState := balancerState w1, balancerRunning := balancerRunning w1,
                 trace := trace w @ new\<rparr>"
       "ends_at active_obs new (\<not> ok)" "list_all (\<lambda>ev. \<not> error_obs ev) new"
    by blast
  have "trace w1 = trace w @ new \<and> colls w1 = colls w \<and> lastErrors w1 = lastErrors w"
    by (subst n(1), simp)+
  with n(2,3) show ?thesis by blast
next
  case False
  with assms have "ok" "w1 = w" by simp_all
  then show ?thesis
    by (intro exI [of _ "[]"]) (simp add: ends_at_def)
qed

lemma delete_step:
  assumes "getLastError (coll_remove shard ns batch w1) = (err, w2)"
  shows "trace w2 = trace w1 @ [DeleteIds shard ns batch, GetLastError err] \<and>
         colls w2 shard ns =
           (if truthy err then colls w1 shard ns
            else filter (\<lambda>x. did x \<notin> set batch) (colls w1 shard ns))"
  using assms
  by (cases "lastErrors w1")
     (auto simp add: getLastError_def coll_remove_def Let_def truthy_def)

lemma filter_twice_take:
  "filter (\<lambda>x. did x \<notin> set (take k ys)) (filter (\<lambda>x. did x \<notin> set xs) ds) =
   filter (\<lambda>x. did x \<notin> set (take (length xs + k) (xs @ ys))) ds"
  by (induction ds) auto

lemma remove_loop_inv:
  "remove_loop shard ns cur ids n w = (res, w') \<Longrightarrow>
   \<exists>new. trace w' = trace w @ new \<and>
     ends_at active_obs new (res = Inl BalancerUnexpectedlyEnabled) \<and>
     ends_at error_obs new (\<exists>m e. res = Inr (m, Some e)) \<and>
     (\<forall>m e. res = Inr (m, Some e) \<longrightarrow>
        e \<noteq> [] \<and> (\<exists>pre b. new = pre @ [DeleteIds shard ns b, GetLastError (Some e)])) \<and>
     (\<forall>x. res = Inl x \<longrightarrow> x = BalancerUnexpectedlyEnabled) \<and>
     (\<forall>m err. res = Inr (m, err) \<longrightarrow>
        n \<le> m \<and>
        colls w' shard ns =
          filter (\<lambda>x. did x \<notin> set (take (m - n) (ids @ map did cur))) (colls w shard ns))"
proof (induction cur arbitrary: ids n w)
  case Nil
  then have "res = Inr (n, None)" "w' = w" by simp_all
  then show ?case
    by (intro exI [of _ "[]"]) (simp add: ends_at_def)
next
  case (Cons d ds)
  let ?batch = "ids @ [did d]"
  show ?case
  proof (cases "100 \<le> length ?batch \<or> ds = []")
    case False
    with Cons.prems have "remove_loop shard ns ds ?batch n w = (res, w')"
      by (simp add: Let_def)
    from Cons.IH [OF this] show ?thesis by simp
  next
    case True
    obtain ok w1 where g: "(if balancerParanoia w then balancer_off w else (True, w)) = (ok, w1)"
      by (metis surj_pair)
    from guard_trace [OF g] obtain new1 where
      n1: "trace w1 = trace w @ new1" "colls w1 = colls w"
          "ends_at active_obs new1 (\<not> ok)" "list_all (\<lambda>ev. \<not> error_obs ev) new1"
      by blast
    show ?thesis
    proof (cases ok)
      case False
      with Cons.prems True g have r: "res = Inl BalancerUnexpectedlyEnabled" "w' = w1"
        by (auto simp add: Let_def)
      with n1 False show ?thesis
        by (intro exI [of _ new1]) (simp add: ends_at_def)
    next
      case ok: True
      with n1(3) have q1: "list_all (\<lambda>ev. \<not> active_obs ev) new1"
        by (simp add: ends_at_def)
      obtain err w2 where gl: "getLastError (coll_remove shard ns ?batch w1) = (err, w2)"
        by (metis surj_pair)
      note ds = delete_step [OF gl]
      let ?step = "[DeleteIds shard ns ?batch, GetLastError err]"
      have tr2: "trace w2 = trace w @ (new1 @ ?step)"
        using ds n1(1) by simp
      show ?thesis
      proof (cases "truthy err")
        case True
        then obtain e where e: "err = Some e" "e \<noteq> []"
          by (auto simp add: truthy_def split: option.splits)
        from Cons.prems \<open>100 \<le> length ?batch \<or> ds = []\<close> g ok gl True
        have r: "res = Inr (n, err)" "w' = w2"
          by (auto simp add: Let_def)
        have a: "ends_at active_obs (new1 @ ?step) False"
          using q1 by (simp add: ends_at_def active_obs_def)
        have b: "ends_at error_obs (new1 @ ?step) True"
          using n1(4) True by (simp add: ends_at_def error_obs_def butlast_append)
        have c: "colls w' shard ns = colls w shard ns"
          using ds True r n1(2) by simp
        show ?thesis
          using a b c e r tr2
          by (intro exI [of _ "new1 @ ?step"]) auto
      next
        case False
        from Cons.prems \<open>100 \<le> length ?batch \<or> ds = []\<close> g ok gl False
        have rec: "remove_loop shard ns ds [] (n + length ?batch) w2 = (res, w')"
          by (auto simp add: Let_def)
        from Cons.IH [OF rec] obtain new2 where
          n2: "trace w' = trace w2 @ new2"
              "ends_at active_obs new2 (res = Inl BalancerUnexpectedlyEnabled)"
              "ends_at error_obs new2 (\<exists>m e. res = Inr (m, Some e))"
              "\<forall>m e. res = Inr (m, Some e) \<longrightarrow>
                 e \<noteq> [] \<and> (\<exists>pre b. new2 = pre @ [DeleteIds shard ns b, GetLastError (Some e)])"
              "\<forall>x. res = Inl x \<longrightarrow> x = BalancerUnexpectedlyEnabled"
              "\<forall>m err. res = Inr (m, err) \<longrightarrow>
                 n + length ?batch \<le> m \<and>
                 colls w' shard ns =
                   filter (\<lambda>x. did x \<notin> set (take (m - (n + length ?batch)) ([] @ map did ds)))
                     (colls w2 shard ns)"
          by blast
        have q: "list_all (\<lambda>ev. \<not> active_obs ev) (new1 @ ?step)"
          using q1 by (simp add: active_obs_def)
        have p: "list_all (\<lambda>ev. \<not> error_obs ev) (new1 @ ?step)"
          using n1(4) False by (simp add: error_obs_def)
        have a: "ends_at active_obs ((new1 @ ?step) @ new2) (res = Inl BalancerUnexpectedlyEnabled)"
          by (rule ends_at_append [OF q n2(2)])
        have b: "ends_at error_obs ((new1 @ ?step) @ new2) (\<exists>m e. res = Inr (m, Some e))"
          by (rule ends_at_append [OF p n2(3)])
        have c: "\<forall>m e. res = Inr (m, Some e) \<longrightarrow>
                 e \<noteq> [] \<and> (\<exists>pre b. (new1 @ ?step) @ new2 = pre @ [DeleteIds shard ns b, GetLastError (Some e)])"
        proof (intro allI impI)
          fix m e assume "res = Inr (m, Some e)"
          with n2(4) obtain pre b where "e \<noteq> []" "new2 = pre @ [DeleteIds shard ns b, GetLastError (Some e)]"
            by blast
          then have "e \<noteq> []" "(new1 @ ?step) @ new2 = ((new1 @ ?step) @ pre) @ [DeleteIds shard ns b, GetLastError (Some e)]"
            by simp_all
          then show "e \<noteq> [] \<and> (\<exists>pre b. (new1 @ ?step) @ new2 = pre @ [DeleteIds shard ns b, GetLastError (Some e)])"
            by blast
        qed
        have s: "\<forall>m err. res = Inr (m, err) \<longrightarrow>
                   n \<le> m \<and>
                   colls w' shard ns =
                     filter (\<lambda>x. did x \<notin> set (take (m - n) (ids @ map did (d # ds)))) (colls w shard ns)"
        proof (intro allI impI)
          fix m err' assume "res = Inr (m, err')"
          with n2(6) have m: "n + length ?batch \<le> m"
            and cw: "colls w' shard ns =
                   filter (\<lambda>x. did x \<notin> set (take (m - (n + length ?batch)) (map did ds)))
                     (colls w2 shard ns)"
            by auto
          have w2c: "colls w2 shard ns = filter (\<lambda>x. did x \<notin> set ?batch) (colls w shard ns)"
            using ds False n1(2) by simp
          have "m - n = length ?batch + (m - (n + length ?batch))"
            using m by simp
          then have "colls w' shard ns =
              filter (\<lambda>x. did x \<notin> set (take (m - n) (?batch @ map did ds))) (colls w shard ns)"
            using cw w2c filter_twice_take [of "m - (n + length ?batch)" "map did ds" ?batch "colls w shard ns"]
            by simp
          with m show "n \<le> m \<and>
                   colls w' shard ns =
                     filter (\<lambda>x. did x \<notin> set (take (m - n) (ids @ map did (d # ds)))) (colls w shard ns)"
            by simp
        qed
        have tr: "trace w' = trace w @ ((new1 @ ?step) @ new2)"
          using n2(1) tr2 by simp
        show ?thesis
          using tr a b c n2(5) s
          by (intro exI [of _ "(new1 @ ?step) @ new2"]) blast
      qed
    qed
  qed
qed

lemma remove_chunk_cases:
  assumes rc: "remove_chunk r w = (res, r', w')"
  shows "(r' = r \<and> (\<exists>m. w' = print m w) \<and> (\<forall>e. res = Inl e \<longrightarrow> e = TypeError)) \<or>
         (\<exists>a c shard lres w3.
            current r = Some a \<and> heap r a = Some c \<and> \<not> removed c \<and>
            orphanedOn c = Some shard \<and>
            remove_loop shard (namespace r)
              (range_docs (cmin c) (cmax c) (colls w shard (namespace r))) [] 0
              (w\<lparr>trace := trace w @
                   [Print (Removing (cid c) (orphanCount c) (orphanedOn c)),
                    RangeIds shard (namespace r) (cmin c) (cmax c)]\<rparr>) = (lres, w3) \<and>
            (res, r', w') =
              (case lres of
                 Inl e \<Rightarrow> (Inl e, r, w3)
               | Inr (k, None) \<Rightarrow>
                   (Inr k,
                    r\<lparr>heap := (heap r)(a \<mapsto> c\<lparr>removed := True, numRemoved := Some k\<rparr>)\<rparr>,
                    print (SuccessfullyRemoved k (namespace r)) w3)
               | Inr (k, Some err) \<Rightarrow> (Inr k, r, print (ThereWasAnError err) w3)))"
proof (cases "count r = 0 \<or> badChunks r = [] \<or> iter r < 0 \<or> int (length (badChunks r)) \<le> iter r")
  case True
  with rc show ?thesis
    by (auto simp add: remove_chunk_def split: if_splits)
next
  case inside: False
  let ?a = "badChunks r ! nat (iter r)"
  from inside have cur: "current r = Some ?a"
    by (simp add: current_def)
  show ?thesis
  proof (cases "heap r ?a")
    case None
    with rc inside show ?thesis
      by (auto simp add: remove_chunk_def Let_def)
  next
    case (Some c)
    show ?thesis
    proof (cases "removed c")
      case True
      with rc inside Some show ?thesis
        by (auto simp add: remove_chunk_def Let_def)
    next
      case nr: False
      show ?thesis
      proof (cases "connection_of r (orphanedOn c)")
        case None
        with rc inside Some nr show ?thesis
          by (auto simp add: remove_chunk_def Let_def)
      next
        case (Some shard)
        then have oo: "orphanedOn c = Some shard"
          by (auto simp add: connection_of_def split: option.splits if_splits)
        let ?w2 = "w\<lparr>trace := trace w @
                   [Print (Removing (cid c) (orphanCount c) (orphanedOn c)),
                    RangeIds shard (namespace r) (cmin c) (cmax c)]\<rparr>"
        obtain lres w3 where lp: "remove_loop shard (namespace r)
              (range_docs (cmin c) (cmax c) (colls w shard (namespace r))) [] 0 ?w2 = (lres, w3)"
          by (metis surj_pair)
        have "remove_chunk r w =
              (case lres of
                 Inl e \<Rightarrow> (Inl e, r, w3)
               | Inr (k, None) \<Rightarrow>
                   (Inr k,
                    r\<lparr>heap := (heap r)(?a \<mapsto> c\<lparr>removed := True, numRemoved := Some k\<rparr>)\<rparr>,
                    print (SuccessfullyRemoved k (namespace r)) w3)
               | Inr (k, Some err) \<Rightarrow> (Inr k, r, print (ThereWasAnError err) w3))"
          using inside \<open>heap r ?a = Some c\<close> nr Some lp
          by (simp add: remove_chunk_def Let_def print_def split: sum.splits option.splits prod.splits)
        with rc cur \<open>heap r ?a = Some c\<close> nr oo lp show ?thesis
          by (intro disjI2 exI [of _ ?a] exI [of _ c] exI [of _ shard] exI [of _ lres] exI [of _ w3])
             simp
      qed
    qed
  qed
qed

lemma remove_chunk_inv:
  assumes rc: "remove_chunk r w = (res, r', w')"
  shows "(\<exists>new. trace w' = trace w @ new \<and>
            ends_at active_obs new (res = Inl BalancerUnexpectedlyEnabled)) \<and>
         (\<forall>a c. heap r a = Some c \<and> removed c \<longrightarrow> (\<exists>c'. heap r' a = Some c' \<and> removed c'))"
proof -
  from remove_chunk_cases [OF rc] show ?thesis
  proof (elim disjE exE conjE)
    fix m
    assume "r' = r" "w' = print m w" "\<forall>e. res = Inl e \<longrightarrow> e = TypeError"
    then show ?thesis
      by (auto simp add: print_def ends_at_def active_obs_def intro!: exI [of _ "[Print m]"])
  next
    fix a and c :: chunk and shard lres w3
    let ?w2 = "w\<lparr>trace := trace w @
                   [Print (Removing (cid c) (orphanCount c) (orphanedOn c)),
                    RangeIds shard (namespace r) (cmin c) (cmax c)]\<rparr>"
    let ?head = "[Print (Removing (cid c) (orphanCount c) (orphanedOn c)),
                    RangeIds shard (namespace r) (cmin c) (cmax c)]"
    assume cur: "current r = Some a" "heap r a = Some c" "\<not> removed c"
      and lp: "remove_loop shard (namespace r)
              (range_docs (cmin c) (cmax c) (colls w shard (namespace r))) [] 0 ?w2 = (lres, w3)"
      and out: "(res, r', w') =
              (case lres of
                 Inl e \<Rightarrow> (Inl e, r, w3)
               | Inr (k, None) \<Rightarrow>
                   (Inr k,
                    r\<lparr>heap := (heap r)(a \<mapsto> c\<lparr>removed := True, numRemoved := Some k\<rparr>)\<rparr>,
                    print (SuccessfullyRemoved k (namespace r)) w3)
               | Inr (k, Some err) \<Rightarrow> (Inr k, r, print (ThereWasAnError err) w3))"
    from remove_loop_inv [OF lp] obtain newl where
      nl: "trace w3 = trace ?w2 @ newl"
          "ends_at active_obs newl (lres = Inl BalancerUnexpectedlyEnabled)"
      by blast
    have hq: "list_all (\<lambda>ev. \<not> active_obs ev) ?head"
      by (simp add: active_obs_def)
    have heap_ok: "\<forall>a c. heap r a = Some c \<and> removed c \<longrightarrow> (\<exists>c'. heap r' a = Some c' \<and> removed c')"
      using out by (auto split: sum.splits option.splits prod.splits)
    show ?thesis
    proof (cases lres)
      case (Inl e)
      with out have o: "res = Inl e" "w' = w3" by simp_all
      have "ends_at active_obs (?head @ newl) (res = Inl BalancerUnexpectedlyEnabled)"
        using ends_at_append [OF hq nl(2)] Inl o by simp
      moreover have "trace w' = trace w @ (?head @ newl)"
        using nl(1) o by simp
      ultimately show ?thesis using heap_ok by blast
    next
      case (Inr p)
      obtain k err where p: "p = (k, err)" by (cases p)
      from Inr nl(2) have ql: "list_all (\<lambda>ev. \<not> active_obs ev) newl"
        by (simp add: ends_at_def)
      from out Inr p obtain m where o: "res = Inr k" "w' = print m w3"
        by (cases err) auto
      have "ends_at active_obs (?head @ newl @ [Print m]) (res = Inl BalancerUnexpectedlyEnabled)"
        using ql o by (simp add: ends_at_def active_obs_def)
      moreover have "trace w' = trace w @ (?head @ newl @ [Print m])"
        using nl(1) o by (simp add: print_def)
      ultimately show ?thesis using heap_ok by blast
    qed
  qed
qed

lemma removeAll_loop_inv:
  "removeAll_loop secs r w num = (res, r', w') \<Longrightarrow>
     (\<exists>new. trace w' = trace w @ new \<and>
            ends_at active_obs new (res = Inl BalancerUnexpectedlyEnabled)) \<and>
     (\<forall>a c. heap r a = Some c \<and> removed c \<longrightarrow> (\<exists>c'. heap r' a = Some c' \<and> removed c'))"
proof (induction secs r w num rule: removeAll_loop.induct)
  case (1 secs r w num)
  show ?case
  proof (cases "hasNext r")
    case False
    with "1.prems" have "res = Inr num" "r' = r" "w' = w"
      by (simp_all add: removeAll_loop.simps)
    then show ?thesis
      by (simp add: ends_at_def)
  next
    case True
    obtain c r1 where nc: "next_chunk r = (c, r1)"
      by (metis surj_pair)
    then have h1: "heap r1 = heap r"
      by (auto simp add: next_chunk_def Let_def)
    obtain res1 r2 w2 where rc: "remove_chunk r1 w = (res1, r2, w2)"
      by (metis prod_cases3)
    from remove_chunk_inv [OF rc] obtain new1 where
      i1: "trace w2 = trace w @ new1"
          "ends_at active_obs new1 (res1 = Inl BalancerUnexpectedlyEnabled)"
          "\<forall>a c. heap r1 a = Some c \<and> removed c \<longrightarrow> (\<exists>c'. heap r2 a = Some c' \<and> removed c')"
      by blast
    show ?thesis
    proof (cases res1)
      case (Inl e)
      with "1.prems" True nc rc have "res = Inl e" "r' = r2" "w' = w2"
        by (simp_all add: removeAll_loop.simps)
      with i1 Inl h1 show ?thesis by auto
    next
      case (Inr n)
      let ?w3 = "if secs \<noteq> 0 then sleep secs w2 else w2"
      let ?sl = "if secs \<noteq> 0 then [Sleep secs] else []"
      from "1.prems" True nc rc Inr
      have rec: "removeAll_loop secs r2 ?w3 (num + n) = (res, r', w')"
        by (simp add: removeAll_loop.simps)
      from "1.IH" [OF True nc [symmetric] _ Inr _ rec, of "(r2, w2)"] rc
      obtain new2 where
        i2: "trace w' = trace ?w3 @ new2"
            "ends_at active_obs new2 (res = Inl BalancerUnexpectedlyEnabled)"
            "\<forall>a c. heap r2 a = Some c \<and> removed c \<longrightarrow> (\<exists>c'. heap r' a = Some c' \<and> removed c')"
        by auto
      from Inr i1(2) have q1: "list_all (\<lambda>ev. \<not> active_obs ev) (new1 @ ?sl)"
        by (simp add: ends_at_def active_obs_def)
      have tr: "trace w' = trace w @ ((new1 @ ?sl) @ new2)"
        using i2(1) i1(1) by (simp add: sleep_def)
      have "\<forall>a c. heap r a = Some c \<and> removed c \<longrightarrow> (\<exists>c'. heap r' a = Some c' \<and> removed c')"
        using i1(3) i2(3) h1 by metis
      with tr ends_at_append [OF q1 i2(2)] show ?thesis by blast
    qed
  qed
qed


text \<open>
  C9. When a bulk delete of \<open>remove()\<close> reports an error \<open>e\<close>, that delete is the last
  one: the call prints the error and returns. The result object is unchanged, so the
  chunk under the cursor still has \<open>removed\<close> unset and no \<open>numRemoved\<close>. The number
  returned is the number of documents of the earlier batches, all reported deleted, and
  those documents, the first \<open>k\<close> of the range, are gone from the shard.
\<close>

theorem remove_chunk_delete_error:
  assumes rc: "remove_chunk r w = (res, r', w')"
    and tr: "trace w' = trace w @ new"
    and ev: "GetLastError (Some e) \<in> set new" and ne: "e \<noteq> []"
  shows "r' = r \<and>
     (\<exists>a c shard k pre batch.
        current r = Some a \<and> heap r a = Some c \<and> \<not> removed c \<and> orphanedOn c = Some shard \<and>
        res = Inr k \<and>
        new = pre @ [DeleteIds shard (namespace r) batch, GetLastError (Some e),
                     Print (ThereWasAnError e)] \<and>
        list_all (\<lambda>ev. \<not> error_obs ev) pre \<and>
        colls w' shard (namespace r) =
          filter (\<lambda>x. did x \<notin> set (map did (take k
                    (range_docs (cmin c) (cmax c) (colls w shard (namespace r))))))
            (colls w shard (namespace r)))"
proof -
  have eo: "error_obs (GetLastError (Some e))"
    using ne by (simp add: error_obs_def truthy_def)
  from remove_chunk_cases [OF rc] show ?thesis
  proof (elim disjE exE conjE)
    fix m
    assume "w' = print m w"
    with tr have "new = [Print m]" by (simp add: print_def)
    with ev show ?thesis by simp
  next
    fix a and c :: chunk and shard lres w3
    let ?head = "[Print (Removing (cid c) (orphanCount c) (orphanedOn c)),
                    RangeIds shard (namespace r) (cmin c) (cmax c)]"
    let ?w2 = "w\<lparr>trace := trace w @ ?head\<rparr>"
    let ?cur = "range_docs (cmin c) (cmax c) (colls w shard (namespace r))"
    assume cur: "current r = Some a" "heap r a = Some c" "\<not> removed c" "orphanedOn c = Some shard"
      and lp: "remove_loop shard (namespace r) ?cur [] 0 ?w2 = (lres, w3)"
      and out: "(res, r', w') =
              (case lres of
                 Inl e \<Rightarrow> (Inl e, r, w3)
               | Inr (k, None) \<Rightarrow>
                   (Inr k,
                    r\<lparr>heap := (heap r)(a \<mapsto> c\<lparr>removed := True, numRemoved := Some k\<rparr>)\<rparr>,
                    print (SuccessfullyRemoved k (namespace r)) w3)
               | Inr (k, Some err) \<Rightarrow> (Inr k, r, print (ThereWasAnError err) w3))"
    from remove_loop_inv [OF lp] obtain newl where
      nl: "trace w3 = trace ?w2 @ newl"
          "ends_at error_obs newl (\<exists>m e. lres = Inr (m, Some e))"
          "\<forall>m e. lres = Inr (m, Some e) \<longrightarrow>
             e \<noteq> [] \<and> (\<exists>pre b. newl = pre @ [DeleteIds shard (namespace r) b, GetLastError (Some e)])"
          "\<forall>m err. lres = Inr (m, err) \<longrightarrow>
             0 \<le> m \<and>
             colls w3 shard (namespace r) =
               filter (\<lambda>x. did x \<notin> set (take (m - 0) ([] @ map did ?cur))) (colls ?w2 shard (namespace r))"
      by blast
    have stopped: "\<exists>m e. lres = Inr (m, Some e)"
    proof (rule ccontr)
      assume ns: "\<not> (\<exists>m e. lres = Inr (m, Some e))"
      with nl(2) have quiet: "list_all (\<lambda>ev. \<not> error_obs ev) newl"
        by (simp add: ends_at_def)
      from ns out obtain tail where "trace w' = trace w3 @ tail" "list_all (\<lambda>ev. \<not> error_obs ev) tail"
        by (cases lres) (auto simp add: print_def error_obs_def split: option.splits)
      with nl(1) tr have "new = ?head @ newl @ tail" by simp
      with quiet \<open>list_all (\<lambda>ev. \<not> error_obs ev) tail\<close>
      have "list_all (\<lambda>ev. \<not> error_obs ev) new"
        by (simp add: error_obs_def)
      with ev eo show False
        by (auto simp add: list_all_iff)
    qed
    then obtain k err where lres: "lres = Inr (k, Some err)" by blast
    with nl(3) obtain pre batch where
      pb: "err \<noteq> []" "newl = pre @ [DeleteIds shard (namespace r) batch, GetLastError (Some err)]"
      by blast
    from nl(2) lres pb(2) have qpre: "list_all (\<lambda>ev. \<not> error_obs ev) pre"
      by (simp add: ends_at_def butlast_append)
    from out lres have o: "res = Inr k" "r' = r" "w' = print (ThereWasAnError err) w3"
      by simp_all
    have new: "new = (?head @ pre) @ [DeleteIds shard (namespace r) batch, GetLastError (Some err),
                     Print (ThereWasAnError err)]"
      using tr nl(1) o(3) pb(2) by (simp add: print_def)
    have "err = e"
    proof -
      from ev new have "GetLastError (Some e) \<in> set pre \<or> e = err"
        by auto
      moreover have "GetLastError (Some e) \<notin> set pre"
        using qpre eo by (auto simp add: list_all_iff)
      ultimately show ?thesis by simp
    qed
    have q: "list_all (\<lambda>ev. \<not> error_obs ev) (?head @ pre)"
      using qpre by (simp add: error_obs_def)
    have st: "colls w' shard (namespace r) =
          filter (\<lambda>x. did x \<notin> set (map did (take k ?cur))) (colls w shard (namespace r))"
      using nl(4) lres o(3) by (simp add: print_def take_map)
    show ?thesis
      using cur o new q st \<open>err = e\<close>
      by (intro conjI exI [of _ a] exI [of _ c] exI [of _ shard] exI [of _ k]
          exI [of _ "?head @ pre"] exI [of _ batch]) simp_all
  qed
qed

theorem remove_chunk_delete_error_witness:
  "fst (snd (remove_chunk (two_chunks\<lparr>iter := 0\<rparr>) failing_world)) = two_chunks\<lparr>iter := 0\<rparr> \<and>
   fst (remove_chunk (two_chunks\<lparr>iter := 0\<rparr>) failing_world) = Inr 100 \<and>
   colls (snd (snd (remove_chunk (two_chunks\<lparr>iter := 0\<rparr>) failing_world))) ''A'' ''test.orders'' =
     [mk_doc 100 11]"
proof -
  have run: "remove_chunk (two_chunks\<lparr>iter := 0\<rparr>) failing_world =
      (fst (remove_chunk (two_chunks\<lparr>iter := 0\<rparr>) failing_world),
       fst (snd (remove_chunk (two_chunks\<lparr>iter := 0\<rparr>) failing_world)),
       snd (snd (remove_chunk (two_chunks\<lparr>iter := 0\<rparr>) failing_world)))"
    by simp
  have tr: "trace (snd (snd (remove_chunk (two_chunks\<lparr>iter := 0\<rparr>) failing_world))) =
      trace failing_world @
      [Print (Removing ''b'' (Some 2) (Some ''A'')), RangeIds ''A'' ''test.orders'' [Num 10] [Num 20],
       GetBalancerState False, IsBalancerRunning False,
       DeleteIds ''A'' ''test.orders'' [0..<100], GetLastError None,
       GetBalancerState False, IsBalancerRunning False,
       DeleteIds ''A'' ''test.orders'' [100], GetLastError (Some ''boom''),
       Print (ThereWasAnError ''boom'')]"
    by code_simp
  have ev: "GetLastError (Some ''boom'') \<in> set
      [Print (Removing ''b'' (Some 2) (Some ''A'')), RangeIds ''A'' ''test.orders'' [Num 10] [Num 20],
       GetBalancerState False, IsBalancerRunning False,
       DeleteIds ''A'' ''test.orders'' [0..<100], GetLastError None,
       GetBalancerState False, IsBalancerRunning False,
       DeleteIds ''A'' ''test.orders'' [100], GetLastError (Some ''boom''),
       Print (ThereWasAnError ''boom'')]"
    by simp
  have ne: "''boom'' \<noteq> []" by simp
  from remove_chunk_delete_error [OF run tr ev ne]
  have same: "fst (snd (remove_chunk (two_chunks\<lparr>iter := 0\<rparr>) failing_world)) = two_chunks\<lparr>iter := 0\<rparr>"
    by (rule conjunct1)
  have res: "fst (remove_chunk (two_chunks\<lparr>iter := 0\<rparr>) failing_world) = Inr 100"
    by code_simp
  have st: "colls (snd (snd (remove_chunk (two_chunks\<lparr>iter := 0\<rparr>) failing_world))) ''A'' ''test.orders'' =
     [mk_doc 100 11]"
    by code_simp
  from same res st show ?thesis by blast
qed

section \<open>removeAll: the walk\<close>

text \<open>
  C4, as the code has it. \<open>removeAll\<close> rewinds first: whatever the cursor position was,
  it calls \<open>remove()\<close> on every BadChunk from the first to the last, in order, and
  returns the sum of the counts. A chunk whose delete reports an error adds the count of
  its earlier batches and the walk goes on; only an exception ends it, and the exceptions
  of \<open>remove()\<close> are the failed balancer assertion and the missing connection.
\<close>

theorem removeAll_chunks_rewinds:
  "removeAll_chunks secs r w = remove_each secs [0..<length (badChunks r)] (rewind r) w 0 \<and>
   removeAll_chunks secs (r\<lparr>iter := i\<rparr>) w = removeAll_chunks secs r w \<and>
   (\<forall>e. fst (remove_chunk r w) = Inl e \<longrightarrow> e = BalancerUnexpectedlyEnabled \<or> e = TypeError)"
proof -
  have a: "\<And>r. removeAll_chunks secs r w =
      remove_each secs [0..<length (badChunks r)] (rewind r) w 0"
    using removeAll_loop_remove_each [of "rewind r" secs w 0 for r]
    by (simp add: removeAll_chunks_def rewind_def)
  have b: "e = BalancerUnexpectedlyEnabled \<or> e = TypeError" if e: "fst (remove_chunk r w) = Inl e" for e
  proof -
    obtain res r' w' where rc: "remove_chunk r w = (res, r', w')"
      by (metis prod_cases3)
    with e have res: "res = Inl e" by simp
    from remove_chunk_cases [OF rc] show ?thesis
    proof (elim disjE exE conjE)
      assume "\<forall>e. res = Inl e \<longrightarrow> e = TypeError"
      with res show ?thesis by simp
    next
      fix a and c :: chunk and shard lres w3
      assume lp: "remove_loop shard (namespace r)
              (range_docs (cmin c) (cmax c) (colls w shard (namespace r))) [] 0
              (w\<lparr>trace := trace w @
                   [Print (Removing (cid c) (orphanCount c) (orphanedOn c)),
                    RangeIds shard (namespace r) (cmin c) (cmax c)]\<rparr>) = (lres, w3)"
        and out: "(res, r', w') =
              (case lres of
                 Inl e \<Rightarrow> (Inl e, r, w3)
               | Inr (k, None) \<Rightarrow>
                   (Inr k,
                    r\<lparr>heap := (heap r)(a \<mapsto> c\<lparr>removed := True, numRemoved := Some k\<rparr>)\<rparr>,
                    print (SuccessfullyRemoved k (namespace r)) w3)
               | Inr (k, Some err) \<Rightarrow> (Inr k, r, print (ThereWasAnError err) w3))"
      from out res have "lres = Inl e"
        by (cases lres) (auto split: option.splits)
      with remove_loop_inv [OF lp] show ?thesis by blast
    qed
  qed
  from a b show ?thesis
    by (simp add: rewind_def)
qed

theorem removeAll_chunks_rewinds_witness:
  "removeAll_chunks 0 (two_chunks\<lparr>iter := 1\<rparr>) (mk_world [''A'', ''B'', ''C''] [] data_A) =
     removeAll_chunks 0 two_chunks (mk_world [''A'', ''B'', ''C''] [] data_A) \<and>
   fst (removeAll_chunks 0 two_chunks (mk_world [''A'', ''B'', ''C''] [] data_A)) = Inr 3 \<and>
   fst (removeAll_chunks 0 two_chunks
     ((mk_world [''A'', ''B'', ''C''] [] data_A)\<lparr>lastErrors := [Some ''boom'']\<rparr>)) = Inr 1"
proof -
  have a: "removeAll_chunks 0 (two_chunks\<lparr>iter := 1\<rparr>) (mk_world [''A'', ''B'', ''C''] [] data_A) =
     removeAll_chunks 0 two_chunks (mk_world [''A'', ''B'', ''C''] [] data_A)"
    using removeAll_chunks_rewinds [of 0 two_chunks "mk_world [''A'', ''B'', ''C''] [] data_A" 1]
    by simp
  have b: "fst (removeAll_chunks 0 two_chunks (mk_world [''A'', ''B'', ''C''] [] data_A)) = Inr 3"
    by code_simp
  have c: "fst (removeAll_chunks 0 two_chunks
     ((mk_world [''A'', ''B'', ''C''] [] data_A)\<lparr>lastErrors := [Some ''boom'']\<rparr>)) = Inr 1"
    by code_simp
  from a b c show ?thesis by blast
qed

text \<open>
  C4 as stated fails: with the cursor on the last of two BadChunks, \<open>removeAll\<close> goes
  back to the first one, deletes its two documents, and returns 3.
\<close>

theorem removeAll_revisits_counterexample:
  "current (two_chunks\<lparr>iter := 1\<rparr>) = Some 1 \<and> \<not> hasNext (two_chunks\<lparr>iter := 1\<rparr>) \<and>
   fst (removeAll_chunks 0 (two_chunks\<lparr>iter := 1\<rparr>) (mk_world [''A'', ''B'', ''C''] [] data_A)) = Inr 3 \<and>
   trace (snd (snd (removeAll_chunks 0 (two_chunks\<lparr>iter := 1\<rparr>)
     (mk_world [''A'', ''B'', ''C''] [] data_A)))) =
   [Print (Removing ''b'' (Some 2) (Some ''A'')), RangeIds ''A'' ''test.orders'' [Num 10] [Num 20],
    GetBalancerState False, IsBalancerRunning False, DeleteIds ''A'' ''test.orders'' [2, 3],
    GetLastError None, Print (SuccessfullyRemoved 2 ''test.orders''),
    Print (Removing ''c'' (Some 1) (Some ''A'')), RangeIds ''A'' ''test.orders'' [Num 20] [MaxKey],
    GetBalancerState False, IsBalancerRunning False, DeleteIds ''A'' ''test.orders'' [4],
    GetLastError None, Print (SuccessfullyRemoved 1 ''test.orders'')]"
  by (simp add: removeAll_chunks_def rewind_def removeAll_loop.simps hasNext_def next_chunk_def
      current_def sleep_def eval_defs)

section \<open>removeAll: the balancer fence\<close>

lemma remove_each_append:
  "remove_each secs (xs @ ys) r w num =
     (case remove_each secs xs r w num of
        (Inl e, r1, w1) \<Rightarrow> (Inl e, r1, w1)
      | (Inr n, r1, w1) \<Rightarrow> remove_each secs ys r1 w1 n)"
  by (induction xs arbitrary: r w num) (auto split: prod.splits sum.splits)

lemma remove_each_flags:
  "remove_each secs ps r w num = (res, r', w') \<Longrightarrow> heap r a = Some c \<Longrightarrow> removed c \<Longrightarrow>
   \<exists>c'. heap r' a = Some c' \<and> removed c'"
proof (induction ps arbitrary: r w num c)
  case Nil
  then show ?case by simp
next
  case (Cons i ps)
  obtain res1 r1 w1 where rc: "remove_chunk (r\<lparr>iter := int i\<rparr>) w = (res1, r1, w1)"
    by (metis prod_cases3)
  from remove_chunk_inv [OF rc] Cons.prems(2,3)
  obtain c1 where c1: "heap r1 a = Some c1" "removed c1"
    by auto
  show ?case
  proof (cases res1)
    case (Inl e)
    with Cons.prems(1) rc have "r' = r1" by simp
    with c1 show ?thesis by simp
  next
    case (Inr n)
    with Cons.prems(1) rc
    have "remove_each secs ps r1 (if secs \<noteq> 0 then sleep secs w1 else w1) (num + n) = (res, r', w')"
      by simp
    from Cons.IH [OF this c1] show ?thesis .
  qed
qed

lemma removeAll_chunks_prefix_flags:
  assumes run: "removeAll_chunks secs r w = (res, r', w')"
    and k: "k \<le> length (badChunks r)"
    and c: "heap (fst (snd (remove_each secs [0..<k] (rewind r) w 0))) a = Some c" "removed c"
  shows "\<exists>c'. heap r' a = Some c' \<and> removed c'"
proof -
  let ?N = "length (badChunks r)"
  from run have all: "remove_each secs [0..<?N] (rewind r) w 0 = (res, r', w')"
    using removeAll_loop_remove_each [of "rewind r" secs w 0]
    by (simp add: removeAll_chunks_def rewind_def)
  obtain resk rk wk where pk: "remove_each secs [0..<k] (rewind r) w 0 = (resk, rk, wk)"
    by (metis prod_cases3)
  from k have "[0..<?N] = [0..<k] @ [k..<?N]"
    by (metis le_add_diff_inverse upt_add_eq_append zero_le)
  with all have split: "(case remove_each secs [0..<k] (rewind r) w 0 of
        (Inl e, r1, w1) \<Rightarrow> (Inl e, r1, w1)
      | (Inr n, r1, w1) \<Rightarrow> remove_each secs [k..<?N] r1 w1 n) = (res, r', w')"
    by (simp add: remove_each_append)
  from c pk have ck: "heap rk a = Some c" by simp
  show ?thesis
  proof (cases resk)
    case (Inl e)
    with split pk have "r' = rk" by simp
    with ck c(2) show ?thesis by simp
  next
    case (Inr n)
    with split pk have "remove_each secs [k..<?N] rk wk n = (res, r', w')" by simp
    from remove_each_flags [OF this ck c(2)] show ?thesis .
  qed
qed

lemma guarded_no_delete:
  assumes "\<forall>s n b. DeleteIds s n b \<notin> set xs"
  shows "guarded xs"
  unfolding guarded_def
proof (intro allI impI)
  fix pre s n b post
  assume "xs = pre @ DeleteIds s n b # post"
  then have "DeleteIds s n b \<in> set xs" by simp
  with assms show "\<exists>pre'. pre = pre' @ [GetBalancerState False, IsBalancerRunning False]"
    by blast
qed

lemma guarded_append:
  assumes "guarded xs" and "guarded ys"
  shows "guarded (xs @ ys)"
  unfolding guarded_def
proof (intro allI impI)
  fix pre s n b post
  assume eq: "xs @ ys = pre @ DeleteIds s n b # post"
  then consider us where "xs = pre @ us" "us @ ys = DeleteIds s n b # post"
    | us where "xs @ us = pre" "ys = us @ DeleteIds s n b # post"
    by (auto simp add: append_eq_append_conv2)
  then show "\<exists>pre'. pre = pre' @ [GetBalancerState False, IsBalancerRunning False]"
  proof cases
    case 1
    show ?thesis
    proof (cases us)
      case Nil
      with 1 have "ys = [] @ DeleteIds s n b # post" by simp
      with assms(2) show ?thesis
        unfolding guarded_def by blast
    next
      case (Cons u us')
      with 1 have "xs = pre @ DeleteIds s n b # us'" by simp
      with assms(1) show ?thesis
        unfolding guarded_def by blast
    qed
  next
    case 2
    with assms(2) obtain p where "us = p @ [GetBalancerState False, IsBalancerRunning False]"
      unfolding guarded_def by blast
    with 2(1) have "pre = (xs @ p) @ [GetBalancerState False, IsBalancerRunning False]"
      by simp
    then show ?thesis by blast
  qed
qed

lemma guarded_batch:
  "guarded [GetBalancerState False, IsBalancerRunning False, DeleteIds s n b, GetLastError e]"
  unfolding guarded_def
proof (intro allI impI)
  fix pre s' n' b' post
  assume "[GetBalancerState False, IsBalancerRunning False, DeleteIds s n b, GetLastError e] =
          pre @ DeleteIds s' n' b' # post"
  then have "pre = [GetBalancerState False, IsBalancerRunning False]"
    by (auto simp add: Cons_eq_append_conv)
  then show "\<exists>pre'. pre = pre' @ [GetBalancerState False, IsBalancerRunning False]"
    by simp
qed

lemma balancer_off_exact:
  assumes "balancer_off w = (ok, w1)"
  shows "balancerParanoia w1 = balancerParanoia w \<and>
         (if ok then trace w1 = trace w @ [GetBalancerState False, IsBalancerRunning False]
          else \<exists>new1. trace w1 = trace w @ new1 \<and> (\<forall>s n b. DeleteIds s n b \<notin> set new1))"
  using assms
  by (auto simp add: balancer_off_def sh_getBalancerState_def sh_isBalancerRunning_def Let_def
      split: if_splits)

lemma delete_step_paranoia:
  assumes "getLastError (coll_remove shard ns batch w1) = (err, w2)"
  shows "balancerParanoia w2 = balancerParanoia w1"
  using assms by (auto simp add: getLastError_def coll_remove_def Let_def)

lemma remove_loop_guarded:
  "balancerParanoia w \<Longrightarrow> remove_loop shard ns cur ids n w = (res, w') \<Longrightarrow>
   balancerParanoia w' \<and> (\<exists>new. trace w' = trace w @ new \<and> guarded new)"
proof (induction cur arbitrary: ids n w)
  case Nil
  then have "w' = w" by simp
  with Nil.prems(1) show ?case
    by (auto intro!: exI [of _ "[]"] guarded_no_delete)
next
  case (Cons d ds)
  let ?batch = "ids @ [did d]"
  show ?case
  proof (cases "100 \<le> length ?batch \<or> ds = []")
    case False
    with Cons.prems have "remove_loop shard ns ds ?batch n w = (res, w')"
      by (simp add: Let_def)
    from Cons.IH [OF Cons.prems(1) this] show ?thesis .
  next
    case True
    obtain ok w1 where g: "balancer_off w = (ok, w1)"
      by (metis surj_pair)
    note bx = balancer_off_exact [OF g]
    show ?thesis
    proof (cases ok)
      case False
      with Cons.prems True g have "w' = w1"
        by (auto simp add: Let_def)
      with bx False Cons.prems(1) show ?thesis
        by (auto intro: guarded_no_delete)
    next
      case ok: True
      with bx have t1: "trace w1 = trace w @ [GetBalancerState False, IsBalancerRunning False]"
        and p1: "balancerParanoia w1"
        using Cons.prems(1) by simp_all
      obtain err w2 where gl: "getLastError (coll_remove shard ns ?batch w1) = (err, w2)"
        by (metis surj_pair)
      let ?block = "[GetBalancerState False, IsBalancerRunning False,
                     DeleteIds shard ns ?batch, GetLastError err]"
      have t2: "trace w2 = trace w @ ?block"
        using delete_step [OF gl] t1 by simp
      have p2: "balancerParanoia w2"
        using delete_step_paranoia [OF gl] p1 by simp
      show ?thesis
      proof (cases "truthy err")
        case True
        from Cons.prems \<open>100 \<le> length ?batch \<or> ds = []\<close> g ok gl True
        have "w' = w2" by (auto simp add: Let_def)
        with t2 p2 guarded_batch show ?thesis by blast
      next
        case False
        from Cons.prems \<open>100 \<le> length ?batch \<or> ds = []\<close> g ok gl False
        have rec: "remove_loop shard ns ds [] (n + length ?batch) w2 = (res, w')"
          by (auto simp add: Let_def)
        from Cons.IH [OF p2 rec] obtain new2 where
          n2: "balancerParanoia w'" "trace w' = trace w2 @ new2" "guarded new2"
          by blast
        have "trace w' = trace w @ (?block @ new2)"
          using n2(2) t2 by simp
        moreover have "guarded (?block @ new2)"
          by (rule guarded_append [OF guarded_batch n2(3)])
        ultimately show ?thesis using n2(1) by blast
      qed
    qed
  qed
qed

lemma remove_chunk_guarded:
  assumes p: "balancerParanoia w" and rc: "remove_chunk r w = (res, r', w')"
  shows "balancerParanoia w' \<and> (\<exists>new. trace w' = trace w @ new \<and> guarded new)"
proof -
  from remove_chunk_cases [OF rc] show ?thesis
  proof (elim disjE exE conjE)
    fix m
    assume "w' = print m w"
    with p show ?thesis
      by (auto simp add: print_def intro!: exI [of _ "[Print m]"] guarded_no_delete)
  next
    fix a and c :: chunk and shard lres w3
    let ?head = "[Print (Removing (cid c) (orphanCount c) (orphanedOn c)),
                    RangeIds shard (namespace r) (cmin c) (cmax c)]"
    let ?w2 = "w\<lparr>trace := trace w @ ?head\<rparr>"
    assume lp: "remove_loop shard (namespace r)
              (range_docs (cmin c) (cmax c) (colls w shard (namespace r))) [] 0 ?w2 = (lres, w3)"
      and out: "(res, r', w') =
              (case lres of
                 Inl e \<Rightarrow> (Inl e, r, w3)
               | Inr (k, None) \<Rightarrow>
                   (Inr k,
                    r\<lparr>heap := (heap r)(a \<mapsto> c\<lparr>removed := True, numRemoved := Some k\<rparr>)\<rparr>,
                    print (SuccessfullyRemoved k (namespace r)) w3)
               | Inr (k, Some err) \<Rightarrow> (Inr k, r, print (ThereWasAnError err) w3))"
    from p have "balancerParanoia ?w2" by simp
    from remove_loop_guarded [OF this lp] obtain newl where
      nl: "balancerParanoia w3" "trace w3 = trace ?w2 @ newl" "guarded newl"
      by blast
    from out obtain tail where
      t: "trace w' = trace w3 @ tail" "balancerParanoia w' = balancerParanoia w3"
         "\<forall>s n b. DeleteIds s n b \<notin> set tail"
      by (cases lres) (auto simp add: print_def split: option.splits)
    have "guarded ?head" "guarded tail"
      using t(3) by (auto intro: guarded_no_delete)
    then have "guarded (?head @ newl @ tail)"
      using nl(3) by (intro guarded_append)
    moreover have "trace w' = trace w @ (?head @ newl @ tail)"
      using t(1) nl(2) by simp
    ultimately show ?thesis using t(2) nl(1) by blast
  qed
qed

lemma remove_each_guarded:
  "balancerParanoia w \<Longrightarrow> remove_each secs ps r w num = (res, r', w') \<Longrightarrow>
   \<exists>new. trace w' = trace w @ new \<and> guarded new"
proof (induction ps arbitrary: r w num)
  case Nil
  then show ?case
    by (auto intro!: exI [of _ "[]"] guarded_no_delete)
next
  case (Cons i ps)
  obtain res1 r1 w1 where rc: "remove_chunk (r\<lparr>iter := int i\<rparr>) w = (res1, r1, w1)"
    by (metis prod_cases3)
  from remove_chunk_guarded [OF Cons.prems(1) rc] obtain new1 where
    n1: "balancerParanoia w1" "trace w1 = trace w @ new1" "guarded new1"
    by blast
  show ?case
  proof (cases res1)
    case (Inl e)
    with Cons.prems(2) rc have "w' = w1" by simp
    with n1 show ?thesis by blast
  next
    case (Inr n)
    let ?w2 = "if secs \<noteq> 0 then sleep secs w1 else w1"
    let ?sl = "if secs \<noteq> 0 then [Sleep secs] else []"
    from Inr Cons.prems(2) rc
    have rec: "remove_each secs ps r1 ?w2 (num + n) = (res, r', w')"
      by simp
    have "balancerParanoia ?w2" using n1(1) by (simp add: sleep_def)
    from Cons.IH [OF this rec] obtain new2 where
      n2: "trace w' = trace ?w2 @ new2" "guarded new2"
      by blast
    have "guarded ?sl" by (auto intro: guarded_no_delete)
    then have "guarded (new1 @ ?sl @ new2)"
      using n1(3) n2(2) by (intro guarded_append)
    moreover have "trace w' = trace w @ (new1 @ ?sl @ new2)"
      using n2(1) n1(2) by (simp add: sleep_def)
    ultimately show ?thesis by blast
  qed
qed

text \<open>
  C7. In a run of \<open>removeAll\<close>, an answer that the balancer is enabled or running is the
  last event of the run, and the run ends with the failed assertion "Balancer
  unexpectedly enabled": no bulk delete follows it. With balancer paranoia on, every
  bulk delete comes right after a probe that found the balancer disabled and not
  running. A chunk marked removed before the run, or after any number of its steps, is
  still marked removed when the run ends.
\<close>

theorem removeAll_chunks_balancer_fence:
  assumes run: "removeAll_chunks secs r w = (res, r', w')"
  shows "(\<exists>new. trace w' = trace w @ new \<and>
            (\<forall>pre ev post. new = pre @ ev # post \<and> active_obs ev \<longrightarrow>
               post = [] \<and> res = Inl BalancerUnexpectedlyEnabled) \<and>
            (balancerParanoia w \<longrightarrow>
               (\<forall>pre s n b post. new = pre @ DeleteIds s n b # post \<longrightarrow>
                  (\<exists>pre'. pre = pre' @ [GetBalancerState False, IsBalancerRunning False])))) \<and>
         (\<forall>k a c. k \<le> length (badChunks r) \<and>
                  heap (fst (snd (remove_each secs [0..<k] (rewind r) w 0))) a = Some c \<and>
                  removed c \<longrightarrow>
                  (\<exists>c'. heap r' a = Some c' \<and> removed c'))"
proof -
  from run have loop: "removeAll_loop secs (rewind r) w 0 = (res, r', w')"
    by (simp add: removeAll_chunks_def)
  from removeAll_loop_inv [OF loop] obtain new where
    n: "trace w' = trace w @ new" "ends_at active_obs new (res = Inl BalancerUnexpectedlyEnabled)"
    by blast
  have fence: "\<forall>pre ev post. new = pre @ ev # post \<and> active_obs ev \<longrightarrow>
               post = [] \<and> res = Inl BalancerUnexpectedlyEnabled"
    using ends_at_unique [OF n(2)] by blast
  have guard: "balancerParanoia w \<longrightarrow> guarded new"
  proof
    assume p: "balancerParanoia w"
    from loop have "remove_each secs [0..<length (badChunks r)] (rewind r) w 0 = (res, r', w')"
      using removeAll_loop_remove_each [of "rewind r" secs w 0]
      by (simp add: rewind_def)
    from remove_each_guarded [OF p this] n(1) show "guarded new" by auto
  qed
  have flags: "\<forall>k a c. k \<le> length (badChunks r) \<and>
                  heap (fst (snd (remove_each secs [0..<k] (rewind r) w 0))) a = Some c \<and>
                  removed c \<longrightarrow>
                  (\<exists>c'. heap r' a = Some c' \<and> removed c')"
    using removeAll_chunks_prefix_flags [OF run] by blast
  from n(1) fence guard flags show ?thesis
    unfolding guarded_def by blast
qed

theorem removeAll_chunks_balancer_fence_witness:
  "fst (removeAll_chunks 0 two_chunks reenabled_world) = Inl BalancerUnexpectedlyEnabled \<and>
   trace (snd (snd (removeAll_chunks 0 two_chunks reenabled_world))) =
     [Print (Removing ''b'' (Some 2) (Some ''A'')), RangeIds ''A'' ''test.orders'' [Num 10] [Num 20],
      GetBalancerState False, IsBalancerRunning False, DeleteIds ''A'' ''test.orders'' [2, 3],
      GetLastError None, Print (SuccessfullyRemoved 2 ''test.orders''),
      Print (Removing ''c'' (Some 1) (Some ''A'')), RangeIds ''A'' ''test.orders'' [Num 20] [MaxKey],
      GetBalancerState True] \<and>
   (\<exists>c'. heap (fst (snd (removeAll_chunks 0 two_chunks reenabled_world))) 0 = Some c' \<and> removed c')"
proof -
  have run: "removeAll_chunks 0 two_chunks reenabled_world =
      (fst (removeAll_chunks 0 two_chunks reenabled_world),
       fst (snd (removeAll_chunks 0 two_chunks reenabled_world)),
       snd (snd (removeAll_chunks 0 two_chunks reenabled_world)))"
    by simp
  have first: "heap (fst (snd (remove_each 0 [0..<1] (rewind two_chunks) reenabled_world 0))) 0 =
      Some ((mk_chunk ''b'' [Num 10] [Num 20] ''B'')
        \<lparr>orphanedOn := Some ''A'', orphanCount := Some 2, removed := True, numRemoved := Some 2\<rparr>)"
    by (simp add: reenabled_world_def rewind_def eval_defs)
  have len: "1 \<le> length (badChunks two_chunks)"
    by (simp add: two_chunks_def)
  from removeAll_chunks_balancer_fence [OF run] len first
  have kept: "\<exists>c'. heap (fst (snd (removeAll_chunks 0 two_chunks reenabled_world))) 0 = Some c' \<and> removed c'"
    by (elim conjE allE [of _ 1] allE [of _ 0]) auto
  have res: "fst (removeAll_chunks 0 two_chunks reenabled_world) = Inl BalancerUnexpectedlyEnabled"
    by code_simp
  have tr: "trace (snd (snd (removeAll_chunks 0 two_chunks reenabled_world))) =
     [Print (Removing ''b'' (Some 2) (Some ''A'')), RangeIds ''A'' ''test.orders'' [Num 10] [Num 20],
      GetBalancerState False, IsBalancerRunning False, DeleteIds ''A'' ''test.orders'' [2, 3],
      GetLastError None, Print (SuccessfullyRemoved 2 ''test.orders''),
      Print (Removing ''c'' (Some 1) (Some ''A'')), RangeIds ''A'' ''test.orders'' [Num 20] [MaxKey],
      GetBalancerState True]"
    by code_simp
  from res tr kept show ?thesis by blast
qed

section \<open>Iteration order\<close>







end
